theory Spec2Isabelle
  imports Main "HOL-Library.Sublist" "HOL-Library.Char_ord" "HOL-Library.List_Lexorder"
begin

section \<open>JavaScript strings\<close>

text \<open>
  A JavaScript string is modelled as a \<^typ>\<open>string\<close>: a list of code units, one
  \<^typ>\<open>char\<close> each. The model therefore covers text whose code units are below 256;
  all patterns the scripts search for are ASCII. \<open>s.includes(p)\<close> is \<^term>\<open>sublist p s\<close>,
  \<open>s.startsWith(p)\<close> is \<^term>\<open>prefix p s\<close> and \<open>s.endsWith(p)\<close> is \<^term>\<open>suffix p s\<close>.
  An exception is a value \<open>Inl (Error message)\<close> of a sum type.
\<close>

datatype error = Error string

text \<open>
  \<open>GetSubstitution\<close> of ECMAScript, for a match without capture groups: in the
  replacement text \<open>$$\<close> stands for a dollar sign, \<open>$&\<close> for the matched text, \<open>$`\<close> for
  the text before the match and \<open>$'\<close> for the text after it; any other character, and a
  dollar sign followed by anything else, is copied.
\<close>

fun getSubstitution :: "string \<Rightarrow> string \<Rightarrow> string \<Rightarrow> string \<Rightarrow> string" where
  "getSubstitution matched preceding following [] = []"
| "getSubstitution matched preceding following [c] = [c]"
| "getSubstitution matched preceding following (c # d # r) =
     (if c = CHR ''$'' \<and> d = CHR ''$'' then CHR ''$'' # getSubstitution matched preceding following r
      else if c = CHR ''$'' \<and> d = CHR ''&'' then matched @ getSubstitution matched preceding following r
      else if c = CHR ''$'' \<and> d = CHR 0x60 then preceding @ getSubstitution matched preceding following r
      else if c = CHR ''$'' \<and> d = CHR 0x27 then following @ getSubstitution matched preceding following r
      else c # getSubstitution matched preceding following (d # r))"

text \<open>
  \<open>s.replace(pat, repl)\<close> with a string pattern: only the first occurrence of \<open>pat\<close> is
  replaced. The argument \<open>preceding\<close> is the text already passed over.
\<close>

fun replaceString :: "string \<Rightarrow> string \<Rightarrow> string \<Rightarrow> string \<Rightarrow> string" where
  "replaceString pat repl preceding [] =
     (if pat = [] then getSubstitution pat preceding [] repl else [])"
| "replaceString pat repl preceding (c # cs) =
     (if prefix pat (c # cs)
      then getSubstitution pat preceding (drop (length pat) (c # cs)) repl @ drop (length pat) (c # cs)
      else c # replaceString pat repl (preceding @ [c]) cs)"

definition replace :: "string \<Rightarrow> string \<Rightarrow> string \<Rightarrow> string" where
  "replace s pat repl = replaceString pat repl [] s"

section \<open>Scope rename (generateReadmes.ts, extractPluginInfo)\<close>

text \<open>
  \<open>const normalizedPackageName =
     (packageJson.name || '').replace('@elizaos-plugins/', '@elizaos/');\<close>
  The manifest's \<open>name\<close> is \<open>None\<close> when the field is missing.
\<close>

definition normalizePackageName :: "string option \<Rightarrow> string" where
  "normalizePackageName name =
     replace (case name of None \<Rightarrow> [] | Some n \<Rightarrow> n) ''@elizaos-plugins/'' ''@elizaos/''"

text \<open>
  A scoped package name in the sense of the npm registry: \<open>@scope/name\<close>, where neither
  the scope nor the name contains another \<open>@\<close> or \<open>/\<close>.
\<close>

definition isScopedName :: "string \<Rightarrow> bool" where
  "isScopedName n =
     (case n of
        [] \<Rightarrow> False
      | c # r \<Rightarrow>
          c = CHR ''@'' \<and>
          (let scope = takeWhile (\<lambda>x. x \<noteq> CHR ''/'') r;
               rest = dropWhile (\<lambda>x. x \<noteq> CHR ''/'') r
           in scope \<noteq> [] \<and> CHR ''@'' \<notin> set scope \<and>
              (case rest of
                 [] \<Rightarrow> False
               | _ # nm \<Rightarrow> nm \<noteq> [] \<and> CHR ''@'' \<notin> set nm \<and> CHR ''/'' \<notin> set nm)))"

section \<open>Per-version download estimate (npmDownloadStats.ts)\<close>

record PackageInfo =
  pkg_name :: string
  pkg_versions :: "string list"

record VersionDownloads =
  vd_packageName :: string
  vd_version :: string
  vd_downloads :: nat
  vd_downloadsPeriod :: string

text \<open>
  The answer of the registry to \<open>axios.get(.../point/<period>/<package>)\<close>: a body whose
  \<open>downloads\<close> field may be missing, a failure with an HTTP status, or a failure without
  a response.
\<close>

datatype response = Body "nat option" | Status nat | NoResponse

text \<open>
  \<open>getDownloadStats\<close>: \<open>response.data.downloads || 0\<close>; a 404 counts as zero downloads,
  any other failure is thrown again.
\<close>

fun getDownloadStats :: "response \<Rightarrow> error + nat" where
  "getDownloadStats (Body None) = Inr 0"
| "getDownloadStats (Body (Some d)) = Inr d"
| "getDownloadStats (Status st) =
     (if st = 404 then Inr 0 else Inl (Error ''request failed''))"
| "getDownloadStats NoResponse = Inl (Error ''request failed'')"

text \<open>
  The total and the number of versions are Numbers that hold non-negative integers, and
  \<open>downloadData.downloads / versions.length\<close> is a division of double precision: the
  exact quotient is rounded to the nearest Number, a tie going to the one whose
  significand is even. \<open>roundHalfEven a b\<close> is the integer nearest to \<open>a / b\<close> under that
  rule.
\<close>

definition roundHalfEven :: "nat \<Rightarrow> nat \<Rightarrow> nat" where
  "roundHalfEven a b =
     (let q = a div b; r = a mod b
      in if 2 * r < b then q
         else if b < 2 * r then q + 1
         else if even q then q else q + 1)"

text \<open>
  The significand of a Number has 53 bits. For a quotient below \<open>2 ^ 53\<close>, \<open>scaleUp d n 0\<close>
  is the number \<open>s\<close> of binary places after the point: the least \<open>s\<close> with
  \<open>2 ^ 52 \<le> d / n * 2 ^ s\<close>. For a larger quotient, \<open>scaleDown d n 0\<close> is the number \<open>t\<close> of
  low bits that are lost: the least \<open>t\<close> with \<open>d / n < 2 ^ 53 * 2 ^ t\<close>.
\<close>

function scaleUp :: "nat \<Rightarrow> nat \<Rightarrow> nat \<Rightarrow> nat" where
  "scaleUp d n s = (if d = 0 \<or> n * 2 ^ 52 \<le> d * 2 ^ s then s else scaleUp d n (s + 1))"
  by pat_completeness auto
termination
proof (relation "measure (\<lambda>(d, n, s). n * 2 ^ 52 - d * 2 ^ s)")
  show "wf (measure (\<lambda>(d, n, s). n * 2 ^ 52 - d * 2 ^ s))" by simp
next
  fix d n s :: nat
  assume "\<not> (d = 0 \<or> n * 2 ^ 52 \<le> d * 2 ^ s)"
  then have "0 < d * 2 ^ s" and "d * 2 ^ s < n * 2 ^ 52" by simp_all
  then have "n * 2 ^ 52 - d * 2 ^ s * 2 < n * 2 ^ 52 - d * 2 ^ s" by linarith
  then show "((d, n, s + 1), (d, n, s)) \<in> measure (\<lambda>(d, n, s). n * 2 ^ 52 - d * 2 ^ s)"
    by (simp add: mult.assoc)
qed

function scaleDown :: "nat \<Rightarrow> nat \<Rightarrow> nat \<Rightarrow> nat" where
  "scaleDown d n t = (if n = 0 \<or> d < n * 2 ^ 53 * 2 ^ t then t else scaleDown d n (t + 1))"
  by pat_completeness auto
termination
proof (relation "measure (\<lambda>(d, n, t). d + 1 - n * 2 ^ 53 * 2 ^ t)")
  show "wf (measure (\<lambda>(d, n, t). d + 1 - n * 2 ^ 53 * 2 ^ t))" by simp
next
  fix d n t :: nat
  assume "\<not> (n = 0 \<or> d < n * 2 ^ 53 * 2 ^ t)"
  then have "0 < n * 2 ^ 53 * 2 ^ t" and "n * 2 ^ 53 * 2 ^ t \<le> d" by simp_all
  then have "d + 1 - n * 2 ^ 53 * 2 ^ t * 2 < d + 1 - n * 2 ^ 53 * 2 ^ t" by linarith
  then show "((d, n, t + 1), (d, n, t)) \<in> measure (\<lambda>(d, n, t). d + 1 - n * 2 ^ 53 * 2 ^ t)"
    by (simp add: mult.assoc)
qed

declare scaleUp.simps [simp del]
declare scaleDown.simps [simp del]

text \<open>
  \<open>d / n\<close> for Numbers that hold the non-negative integers \<open>d\<close> and \<open>n > 0\<close>. The result,
  a Number, is given as a fraction (numerator, denominator): the significand
  \<open>roundHalfEven (d * 2 ^ s) n\<close> over \<open>2 ^ s\<close>, or the significand
  \<open>roundHalfEven d (n * 2 ^ t)\<close> times \<open>2 ^ t\<close>.
\<close>

definition numberDiv :: "nat \<Rightarrow> nat \<Rightarrow> nat \<times> nat" where
  "numberDiv d n =
     (if d = 0 then (0, 1)
      else if d < n * 2 ^ 53
      then (let s = scaleUp d n 0 in (roundHalfEven (d * 2 ^ s) n, 2 ^ s))
      else (let t = scaleDown d n 0 in (roundHalfEven d (n * 2 ^ t) * 2 ^ t, 1)))"

text \<open>
  \<open>Math.round(x)\<close> for a non-negative Number \<open>x\<close>, given as a fraction: the integer
  nearest to \<open>x\<close>, a half going up.
\<close>

definition mathRound :: "nat \<times> nat \<Rightarrow> nat" where
  "mathRound x = (2 * fst x + snd x) div (2 * snd x)"

text \<open>\<open>xs.slice(-10)\<close>: the last ten elements, all of them when there are fewer.\<close>

definition sliceLast10 :: "'a list \<Rightarrow> 'a list" where
  "sliceLast10 xs = drop (length xs - 10) xs"

text \<open>
  The body of the loop of \<open>fetchVersionDownloads\<close> for one package. \<open>api name\<close> is what
  the registry answers for the last month of that package. A failure is caught and
  logged, and the package contributes no record.
\<close>

definition versionDownloadsOf :: "(string \<Rightarrow> response) \<Rightarrow> PackageInfo \<Rightarrow> VersionDownloads list" where
  "versionDownloadsOf api pkg =
     (case getDownloadStats (api (pkg_name pkg)) of
        Inl e \<Rightarrow> []
      | Inr downloads \<Rightarrow>
          (let versions = sliceLast10 (pkg_versions pkg)
           in map (\<lambda>version.
                     \<lparr>vd_packageName = pkg_name pkg, vd_version = version,
                      vd_downloads = mathRound (numberDiv downloads (length versions)),
                      vd_downloadsPeriod = ''last-month''\<rparr>) versions))"

fun fetchVersionDownloads :: "(string \<Rightarrow> response) \<Rightarrow> PackageInfo list \<Rightarrow> VersionDownloads list" where
  "fetchVersionDownloads api [] = []"
| "fetchVersionDownloads api (pkg # packages) =
     versionDownloadsOf api pkg @ fetchVersionDownloads api packages"


section \<open>README generation (generateReadmes.ts)\<close>

abbreviation NL :: string where
  "NL \<equiv> [CHR 0x0A]"

abbreviation SQ :: string where
  "SQ \<equiv> [CHR 0x27]"

text \<open>
  White space in the sense of \<open>trim\<close> and of the class \<open>\s\<close>, among the code units
  below 256: tab, line feed, vertical tab, form feed, carriage return, space and the
  no-break space.
\<close>

definition isSpace :: "char \<Rightarrow> bool" where
  "isSpace c = (c \<in> {CHR 0x09, CHR 0x0A, CHR 0x0B, CHR 0x0C, CHR 0x0D, CHR 0x20, CHR 0xA0})"

definition trim :: "string \<Rightarrow> string" where
  "trim s = rev (dropWhile isSpace (rev (dropWhile isSpace s)))"

text \<open>\<open>xs.join(sep)\<close>.\<close>

fun join :: "string \<Rightarrow> string list \<Rightarrow> string" where
  "join sep [] = []"
| "join sep [x] = x"
| "join sep (x # y # ys) = x @ sep @ join sep (y # ys)"

text \<open>\<open>s.toLowerCase()\<close> on code units below 256.\<close>

definition toLowerChar :: "char \<Rightarrow> char" where
  "toLowerChar c =
     (let n = (of_char c :: nat)
      in if (65 \<le> n \<and> n \<le> 90) \<or> (192 \<le> n \<and> n \<le> 222 \<and> n \<noteq> 215)
         then char_of (n + 32) else c)"

definition toLowerCase :: "string \<Rightarrow> string" where
  "toLowerCase s = map toLowerChar s"

text \<open>
  \<open>x || d\<close> for an optional string \<open>x\<close>: the default \<open>d\<close> when \<open>x\<close> is undefined or
  empty.
\<close>

definition orElse :: "string option \<Rightarrow> string \<Rightarrow> string" where
  "orElse x d = (case x of None \<Rightarrow> d | Some s \<Rightarrow> if s = [] then d else s)"

record Parameter =
  par_name :: string
  par_type :: string
  par_required :: bool
  par_description :: string

record Method =
  met_name :: string
  met_parameters :: string
  met_description :: string

record ComponentInfo =
  ci_name :: string
  ci_sourceCode :: "string option"
  ci_filePath :: "string option"
  ci_description :: "string option"
  ci_parameters :: "Parameter list option"
  ci_returnType :: "string option"
  ci_methods :: "Method list option"
  ci_aliases :: "string list option"
  ci_usageExample :: "string option"
  ci_configuration :: "string option"

record PluginInfo =
  pi_name :: string
  pi_description :: string
  pi_packageName :: string
  pi_actions :: "ComponentInfo list"
  pi_services :: "ComponentInfo list"
  pi_providers :: "ComponentInfo list"
  pi_events :: "string list"
  pi_evaluators :: "string list"
  pi_envVars :: "string list"
  pi_dependencies :: "string list"
  pi_repository :: string
  pi_hasTests :: bool

text \<open>
  \<open>s.replace(/pat/g, repl)\<close> for a regular expression that is one literal, non-empty
  text \<open>pat\<close> (the placeholders \<open>{{NAME}}\<close>): every occurrence, found from left to
  right without overlap, is replaced by the expansion of \<open>repl\<close>.
\<close>

function replaceGlobal :: "string \<Rightarrow> string \<Rightarrow> string \<Rightarrow> string \<Rightarrow> string" where
  "replaceGlobal pat repl preceding [] = []"
| "replaceGlobal pat repl preceding (c # cs) =
     (if pat \<noteq> [] \<and> prefix pat (c # cs)
      then getSubstitution pat preceding (drop (length pat) (c # cs)) repl @
           replaceGlobal pat repl (preceding @ pat) (drop (length pat) (c # cs))
      else c # replaceGlobal pat repl (preceding @ [c]) cs)"
  by pat_completeness auto
termination
  by (relation "measure (\<lambda>(pat, repl, preceding, s). length s)") (auto simp: neq_Nil_conv)

definition replaceAll :: "string \<Rightarrow> string \<Rightarrow> string \<Rightarrow> string" where
  "replaceAll s pat repl = replaceGlobal pat repl [] s"

text \<open>The sections that \<open>generateReadmeFromTemplate\<close> builds from the plugin.\<close>

definition envVarsSection :: "PluginInfo \<Rightarrow> string" where
  "envVarsSection pluginInfo =
     (if length (pi_envVars pluginInfo) > 0
      then join NL (map (\<lambda>env. env @ ''=your_'' @ toLowerCase env @ ''_here'') (pi_envVars pluginInfo))
      else ''# No environment variables required'')"

definition componentList :: "ComponentInfo list \<Rightarrow> string \<Rightarrow> string" where
  "componentList components none =
     (if length components > 0
      then join NL (map (\<lambda>c. ''- **'' @ ci_name c @ ''**: <!-- TODO: Add description -->'') components)
      else none)"

definition actionsSection :: "PluginInfo \<Rightarrow> string" where
  "actionsSection pluginInfo = componentList (pi_actions pluginInfo) ''- No actions available''"

definition servicesSection :: "PluginInfo \<Rightarrow> string" where
  "servicesSection pluginInfo = componentList (pi_services pluginInfo) ''- No services available''"

definition providersSection :: "PluginInfo \<Rightarrow> string" where
  "providersSection pluginInfo = componentList (pi_providers pluginInfo) ''- No providers available''"

definition parameterRow :: "Parameter \<Rightarrow> string" where
  "parameterRow param =
     ''| `'' @ par_name param @ ''` | `'' @ par_type param @ ''` | '' @
     (if par_required param then ''Yes'' else ''No'') @ '' | '' @ par_description param @ '' |'' @ NL"

definition actionDetail :: "ComponentInfo \<Rightarrow> string" where
  "actionDetail action =
     ''#### '' @ ci_name action @ NL @ NL @
     orElse (ci_description action) ''Description of this action'' @ NL @ NL @
     (case ci_parameters action of
        Some (p # ps) \<Rightarrow>
          ''**Parameters:**'' @ NL @ NL @
          ''| Parameter | Type | Required | Description |'' @ NL @
          ''|-----------|------|----------|-------------|'' @ NL @
          concat (map parameterRow (p # ps)) @ NL
      | _ \<Rightarrow> ''**Parameters:** This action does not require any parameters.'' @ NL @ NL) @
     ''**Usage:**'' @ NL @ ''```typescript'' @ NL @ ''// Example usage of '' @ ci_name action @ NL @
     orElse (ci_usageExample action)
       (''await runtime.useAction('' @ SQ @ ci_name action @ SQ @ '', { /* parameters */ });'') @
     NL @ ''```'' @ NL @ NL @
     (case ci_returnType action of
        None \<Rightarrow> []
      | Some returnType \<Rightarrow>
          if returnType = [] then []
          else ''**Output:**'' @ NL @ ''```typescript'' @ NL @ returnType @ NL @ ''```'' @ NL @ NL) @
     (case ci_aliases action of
        Some (a # as) \<Rightarrow> ''**Aliases:** '' @ join '', '' (a # as) @ NL @ NL
      | _ \<Rightarrow> [])"

definition methodRow :: "Method \<Rightarrow> string" where
  "methodRow method =
     ''- `'' @ met_name method @ ''('' @ met_parameters method @ '')`: '' @
     (if met_description method = [] then ''Method description'' else met_description method) @ NL"

definition serviceDetail :: "ComponentInfo \<Rightarrow> string" where
  "serviceDetail service =
     ''#### '' @ ci_name service @ NL @ NL @
     orElse (ci_description service) ''Description of this service'' @ NL @ NL @
     (case ci_methods service of
        Some (m # ms) \<Rightarrow> ''**Methods:**'' @ NL @ NL @ concat (map methodRow (m # ms)) @ NL
      | _ \<Rightarrow> []) @
     (case ci_configuration service of
        None \<Rightarrow> []
      | Some configuration \<Rightarrow>
          if configuration = [] then []
          else ''**Configuration:**'' @ NL @ ''```typescript'' @ NL @ configuration @ NL @
               ''```'' @ NL @ NL) @
     ''**Usage Example:**'' @ NL @ ''```typescript'' @ NL @
     orElse (ci_usageExample service)
       (''const service = runtime.getService('' @ SQ @ ci_name service @ SQ @ '');'' @ NL @
        ''// Use service methods here'') @
     NL @ ''```'' @ NL @ NL"

definition providerDetail :: "ComponentInfo \<Rightarrow> string" where
  "providerDetail provider =
     ''#### '' @ ci_name provider @ NL @ NL @
     orElse (ci_description provider) ''Description of this provider'' @ NL @ NL @
     ''**Provided Context:**'' @ NL @ ''```typescript'' @ NL @
     orElse (ci_returnType provider) ''// Context structure'' @ NL @ ''```'' @ NL @ NL @
     ''**Usage:**'' @ NL @ ''```typescript'' @ NL @ ''// The '' @ ci_name provider @
     '' provider supplies the following context'' @ NL @
     orElse (ci_usageExample provider) ''// Context is automatically included in agent prompts'' @
     NL @ ''```'' @ NL @ NL @
     ''**When This Provider Runs:**'' @ NL @
     orElse (ci_configuration provider)
       ''This provider runs before each agent action to supply relevant context.'' @ NL @ NL"

definition detailed :: "(ComponentInfo \<Rightarrow> string) \<Rightarrow> ComponentInfo list \<Rightarrow> string \<Rightarrow> string" where
  "detailed detail components none =
     (if length components > 0
      then join (NL @ ''---'' @ NL @ NL) (map detail components)
      else none)"

definition actionsDetailed :: "PluginInfo \<Rightarrow> string" where
  "actionsDetailed pluginInfo =
     detailed actionDetail (pi_actions pluginInfo) ''No actions found in this plugin.''"

definition servicesDetailed :: "PluginInfo \<Rightarrow> string" where
  "servicesDetailed pluginInfo =
     detailed serviceDetail (pi_services pluginInfo) ''No services found in this plugin.''"

definition providersDetailed :: "PluginInfo \<Rightarrow> string" where
  "providersDetailed pluginInfo =
     detailed providerDetail (pi_providers pluginInfo) ''No providers found in this plugin.''"

text \<open>
  The substitution of \<open>generateReadmeFromTemplate\<close> on the text of the template: eleven
  global replacements, one after the other, each on the result of the one before.
\<close>

definition fillTemplate :: "string \<Rightarrow> PluginInfo \<Rightarrow> string" where
  "fillTemplate template pluginInfo =
     (let readme = replaceAll template ''{{PLUGIN_NAME}}'' (pi_packageName pluginInfo);
          readme = replaceAll readme ''{{PLUGIN_DESCRIPTION}}'' (pi_description pluginInfo);
          readme = replaceAll readme ''{{PACKAGE_NAME}}'' (pi_packageName pluginInfo);
          readme = replaceAll readme ''{{REPOSITORY_URL}}'' (pi_repository pluginInfo);
          readme = replaceAll readme ''{{ENV_VARS}}'' (envVarsSection pluginInfo);
          readme = replaceAll readme ''{{ACTIONS_LIST}}'' (actionsSection pluginInfo);
          readme = replaceAll readme ''{{SERVICES_LIST}}'' (servicesSection pluginInfo);
          readme = replaceAll readme ''{{PROVIDERS_LIST}}'' (providersSection pluginInfo);
          readme = replaceAll readme ''{{ACTIONS_DETAILED}}'' (actionsDetailed pluginInfo);
          readme = replaceAll readme ''{{SERVICES_DETAILED}}'' (servicesDetailed pluginInfo);
          readme = replaceAll readme ''{{PROVIDERS_DETAILED}}'' (providersDetailed pluginInfo)
      in readme)"

text \<open>
  \<open>generateReadmeFromTemplate\<close>. \<open>templateFile\<close> is what \<open>fs.readFile(templatePath)\<close>
  gives: the text of the template, or the error it throws; the file is taken not to
  change while the script runs, so every read gives the same. The existing README is
  an argument that the function does not use.
\<close>

definition generateReadmeFromTemplate ::
  "(error + string) \<Rightarrow> PluginInfo \<Rightarrow> string option \<Rightarrow> error + string" where
  "generateReadmeFromTemplate templateFile pluginInfo existingReadme =
     (case templateFile of
        Inl e \<Rightarrow> Inl e
      | Inr template \<Rightarrow> Inr (fillTemplate template pluginInfo))"

text \<open>
  \<open>generateReadmeWithAI\<close>. \<open>completion\<close> is the outcome of the chat-completion call on
  the prompt built from the plugin, the existing README and the template: the error
  thrown, or \<open>completion.choices[0]?.message?.content\<close>, which may be absent. Everything
  from the creation of the client to the final \<open>return readme.trim()\<close> is inside one
  \<open>try\<close>, whose \<open>catch\<close> returns the result of \<open>generateReadmeFromTemplate\<close>. The
  warnings printed about a shorter document or a missing section do not change the
  result and are left out.
\<close>

definition generateReadmeWithAI ::
  "(error + string) \<Rightarrow> (error + string option) \<Rightarrow> PluginInfo \<Rightarrow> string option \<Rightarrow> error + string" where
  "generateReadmeWithAI templateFile completion pluginInfo existingReadme =
     (case templateFile of
        Inl e \<Rightarrow> generateReadmeFromTemplate templateFile pluginInfo existingReadme
      | Inr template \<Rightarrow>
          (case completion of
             Inl e \<Rightarrow> generateReadmeFromTemplate templateFile pluginInfo existingReadme
           | Inr content \<Rightarrow>
               (let readme = (case content of None \<Rightarrow> [] | Some c \<Rightarrow> c)
                in if readme = [] \<or> length (trim readme) < 500
                   then generateReadmeFromTemplate templateFile pluginInfo existingReadme
                   else Inr (trim readme))))"

text \<open>
  \<open>generateReadme\<close>: the AI path when an API key is set and \<open>--no-ai\<close> is not given; if
  that path throws, or is not taken, the template path, whose error is thrown on.
\<close>

definition generateReadme ::
  "bool \<Rightarrow> bool \<Rightarrow> (error + string) \<Rightarrow> (error + string option) \<Rightarrow> PluginInfo \<Rightarrow> string option
     \<Rightarrow> error + string" where
  "generateReadme openaiKey noAi templateFile completion pluginInfo existingReadme =
     (if openaiKey \<and> \<not> noAi
      then (case generateReadmeWithAI templateFile completion pluginInfo existingReadme of
              Inr readme \<Rightarrow> Inr readme
            | Inl e \<Rightarrow> generateReadmeFromTemplate templateFile pluginInfo existingReadme)
      else generateReadmeFromTemplate templateFile pluginInfo existingReadme)"



























text \<open>Plugins on which the substitution is run below.\<close>

definition examplePlugin :: PluginInfo where
  "examplePlugin =
     \<lparr>pi_name = ''@elizaos/plugin-x'', pi_description = ''An example plugin'',
      pi_packageName = ''@elizaos/plugin-x'',
      pi_actions =
        [\<lparr>ci_name = ''transferAction'', ci_sourceCode = None, ci_filePath = None,
          ci_description = None, ci_parameters = None, ci_returnType = None, ci_methods = None,
          ci_aliases = None, ci_usageExample = None, ci_configuration = None\<rparr>],
      pi_services = [], pi_providers = [], pi_events = [], pi_evaluators = [],
      pi_envVars = [''BAR'', ''FOO''], pi_dependencies = [],
      pi_repository = ''https://github.com/elizaos-plugins/plugin-x'', pi_hasTests = False\<rparr>"





section \<open>Paths (Node's \<open>path.join\<close> on POSIX)\<close>

text \<open>\<open>s.split(sep)\<close> for a non-empty separator: the pieces between the occurrences of \<open>sep\<close>.\<close>

function splitFrom :: "string \<Rightarrow> string \<Rightarrow> string \<Rightarrow> string list" where
  "splitFrom sep piece [] = [piece]"
| "splitFrom sep piece (c # cs) =
     (if sep \<noteq> [] \<and> prefix sep (c # cs)
      then piece # splitFrom sep [] (drop (length sep) (c # cs))
      else splitFrom sep (piece @ [c]) cs)"
  by pat_completeness auto
termination
  by (relation "measure (\<lambda>(sep, piece, s). length s)") (auto simp: neq_Nil_conv)

definition splitString :: "string \<Rightarrow> string \<Rightarrow> string list" where
  "splitString s sep = splitFrom sep [] s"

text \<open>
  \<open>normalizeString\<close>: the segments of a path are pushed on a stack (its top first);
  an empty segment and \<open>.\<close> are dropped, \<open>..\<close> removes the segment before it, or is kept
  when there is none and the path is relative.
\<close>

fun normalizeSegments :: "bool \<Rightarrow> string list \<Rightarrow> string list \<Rightarrow> string list" where
  "normalizeSegments allowAboveRoot res [] = res"
| "normalizeSegments allowAboveRoot res (seg # segs) =
     (if seg = [] \<or> seg = ''.'' then normalizeSegments allowAboveRoot res segs
      else if seg = ''..'' then
        (case res of
           lastSeg # others \<Rightarrow>
             if lastSeg \<noteq> ''..'' then normalizeSegments allowAboveRoot others segs
             else if allowAboveRoot then normalizeSegments allowAboveRoot (''..'' # res) segs
             else normalizeSegments allowAboveRoot res segs
         | [] \<Rightarrow>
             if allowAboveRoot then normalizeSegments allowAboveRoot [''..''] segs
             else normalizeSegments allowAboveRoot [] segs)
      else normalizeSegments allowAboveRoot (seg # res) segs)"

definition normalize :: "string \<Rightarrow> string" where
  "normalize p =
     (if p = [] then ''.''
      else
        (let isAbsolute = (hd p = CHR ''/'');
             trailingSeparator = (last p = CHR ''/'');
             body = join ''/'' (rev (normalizeSegments (\<not> isAbsolute) [] (splitString p ''/'')))
         in if body = [] then (if isAbsolute then ''/'' else if trailingSeparator then ''./'' else ''.'')
            else (if isAbsolute then ''/'' else []) @ body @ (if trailingSeparator then ''/'' else [])))"

definition pathJoin :: "string list \<Rightarrow> string" where
  "pathJoin parts =
     (let joined = join ''/'' (filter (\<lambda>part. part \<noteq> []) parts)
      in if joined = [] then ''.'' else normalize joined)"

section \<open>Processing one repository (generateReadmes.ts)\<close>

text \<open>
  What the script does to the world is recorded as a list of events, in order: a
  failure logged by \<open>processPlugin\<close> with the repository name, a call of
  \<open>fs.writeFile\<close>, of \<open>fs.remove\<close>, of \<open>execSync\<close> (command and working directory) and
  of \<open>octokit.pulls.create\<close> (repository and head branch). An event records the call,
  also when the call then fails.
\<close>

datatype event =
    ConsoleError string error
  | WriteFile string string
  | Remove string
  | Exec string "string option"
  | PullsCreate string string

text \<open>
  The world the script runs in: its flags and constants, and for every call that
  leaves the script what the call answers. \<open>None\<close> of type \<open>error option\<close> is success.
  \<open>extractPluginInfo\<close> and the chat completion (which depends on the plugin and on the
  existing README, through the prompt) are taken as they answer.
\<close>

record Env =
  LOCAL_MODE :: bool
  octokit :: bool
  cwd :: string
  OPENAI_API_KEY :: bool
  noAi :: bool
  dateNow :: string
  pathExists :: "string \<Rightarrow> bool"
  readFile :: "string \<Rightarrow> error + string"
  writeFile :: "string \<Rightarrow> string \<Rightarrow> error option"
  fsRemove :: "string \<Rightarrow> error option"
  execSync :: "string \<Rightarrow> string option \<Rightarrow> error option"
  pullsCreate :: "string \<Rightarrow> string \<Rightarrow> error option"
  extractPluginInfo :: "string \<Rightarrow> error + PluginInfo"
  chatCompletion :: "PluginInfo \<Rightarrow> string \<Rightarrow> error + string option"

definition GITHUB_ORG :: string where
  "GITHUB_ORG = ''elizaos-plugins''"

definition README_TEMPLATE_PATH :: "Env \<Rightarrow> string" where
  "README_TEMPLATE_PATH env = pathJoin [cwd env, ''assets/readme-template.md'']"

text \<open>
  A sequence of calls, each with the event it leaves and its outcome: the sequence
  stops at the first call that fails, with its error.
\<close>

fun runSteps :: "(event \<times> error option) list \<Rightarrow> (error + unit) \<times> event list" where
  "runSteps [] = (Inr (), [])"
| "runSteps ((ev, Some e) # steps) = (Inl e, [ev])"
| "runSteps ((ev, None) # steps) = (case runSteps steps of (r, evs) \<Rightarrow> (r, ev # evs))"

text \<open>\<open>returning x r\<close>: the value \<open>x\<close> is returned when the calls \<open>r\<close> have succeeded.\<close>

definition returning :: "'a \<Rightarrow> (error + unit) \<times> event list \<Rightarrow> (error + 'a) \<times> event list" where
  "returning x r = (case fst r of Inl e \<Rightarrow> (Inl e, snd r) | Inr u \<Rightarrow> (Inr x, snd r))"

text \<open>
  The repository name of an item, as \<open>processPlugin\<close>, \<open>getPluginPath\<close> and
  \<open>cloneRepository\<close> each compute it: the item itself, or for a URL its last segment
  without the first \<open>.git\<close>; a URL whose last segment is empty is refused.
\<close>

definition isUrl :: "string \<Rightarrow> bool" where
  "isUrl repoNameOrUrl = (prefix ''http://'' repoNameOrUrl \<or> prefix ''https://'' repoNameOrUrl)"

definition resolveRepoName :: "string \<Rightarrow> error + string" where
  "resolveRepoName repoNameOrUrl =
     (if isUrl repoNameOrUrl
      then (let urlParts = splitString repoNameOrUrl ''/'';
                lastPart = last urlParts
            in if lastPart = [] then Inl (Error (''Invalid URL format: '' @ repoNameOrUrl))
               else Inr (replace lastPart ''.git'' []))
      else Inr repoNameOrUrl)"

definition cloneRepository :: "Env \<Rightarrow> string \<Rightarrow> (error + string) \<times> event list" where
  "cloneRepository env repoNameOrUrl =
     (case resolveRepoName repoNameOrUrl of
        Inl e \<Rightarrow> (Inl e, [])
      | Inr repoName \<Rightarrow>
          (let cloneUrl =
                 (if isUrl repoNameOrUrl
                  then (if suffix ''.git'' repoNameOrUrl then repoNameOrUrl else repoNameOrUrl @ ''.git'')
                  else ''https://github.com/'' @ GITHUB_ORG @ ''/'' @ repoName @ ''.git'');
               tempDir = pathJoin [cwd env, ''temp'', repoName];
               command = ''git clone '' @ cloneUrl @ '' '' @ tempDir
           in returning tempDir
                (runSteps [(Remove tempDir, fsRemove env tempDir),
                           (Exec command None, execSync env command None)])))"

definition getPluginPath :: "Env \<Rightarrow> string \<Rightarrow> (error + string) \<times> event list" where
  "getPluginPath env repoNameOrUrl =
     (if LOCAL_MODE env
      then (case resolveRepoName repoNameOrUrl of
              Inl e \<Rightarrow> (Inl e, [])
            | Inr repoName \<Rightarrow>
                (let localPath = pathJoin [cwd env, ''..'', repoName]
                 in if pathExists env localPath then (Inr localPath, [])
                    else (Inl (Error (''Local plugin '' @ repoName @ '' not found at '' @ localPath)), [])))
      else cloneRepository env repoNameOrUrl)"

text \<open>
  \<open>getLocalPlugins\<close> and the local branch of \<open>getPluginRepositories\<close>: the names of the
  entries of the parent directory that start with \<open>plugin-\<close> and are directories, in
  the order of the listing. \<open>items\<close> is what \<open>fs.readdir(rootDir)\<close> answers, and \<open>stat p\<close>
  what \<open>fs.stat(p)\<close> answers: whether \<open>p\<close> is a directory, or the error it throws. In
  local mode these names are the items that \<open>main\<close> passes to \<open>processPlugin\<close>.
\<close>

fun getLocalPlugins :: "Env \<Rightarrow> (string \<Rightarrow> error + bool) \<Rightarrow> string list \<Rightarrow> error + string list" where
  "getLocalPlugins env stat [] = Inr []"
| "getLocalPlugins env stat (item # items) =
     (if prefix ''plugin-'' item
      then (case stat (pathJoin [pathJoin [cwd env, ''..''], item]) of
              Inl e \<Rightarrow> Inl e
            | Inr isDirectory \<Rightarrow>
                (case getLocalPlugins env stat items of
                   Inl e \<Rightarrow> Inl e
                 | Inr plugins \<Rightarrow> Inr (if isDirectory then item # plugins else plugins)))
      else getLocalPlugins env stat items)"

text \<open>
  A name, as a directory holds it and \<open>fs.readdir\<close> lists it, is not empty, has no slash
  and is neither \<open>.\<close> nor \<open>..\<close>. \<open>process.cwd()\<close> is an absolute path in normal form: the
  names of the directories from the root down, each after a slash, and \<open>/\<close> for the root.
\<close>

definition isName :: "string \<Rightarrow> bool" where
  "isName s = (s \<noteq> [] \<and> CHR ''/'' \<notin> set s \<and> s \<noteq> ''.'' \<and> s \<noteq> ''..'')"

definition absolutePath :: "string list \<Rightarrow> string" where
  "absolutePath segs = CHR ''/'' # join ''/'' segs"

text \<open>
  The segments that \<open>split('/')\<close> finds after the leading slash of such a path: the
  names, and one empty segment for the root.
\<close>

definition rootSegs :: "string list \<Rightarrow> string list" where
  "rootSegs segs = (if segs = [] then [[]] else segs)"

text \<open>
  \<open>createPullRequest\<close>. In local mode the README is written into the plugin's
  directory, after two checks; otherwise a branch is made in the clone, the README
  written, committed and pushed, and the pull request opened.
\<close>

definition localPluginPath :: "Env \<Rightarrow> string \<Rightarrow> string" where
  "localPluginPath env repoName =
     (let currentDir = cwd env;
          isInPluginsAutomation = suffix ''plugins-automation'' currentDir
      in if isInPluginsAutomation then pathJoin [currentDir, ''..'', repoName]
         else pathJoin [currentDir, repoName])"

definition createPullRequest :: "Env \<Rightarrow> string \<Rightarrow> string \<Rightarrow> (error + unit) \<times> event list" where
  \<open>createPullRequest env repoName readme =
     (if LOCAL_MODE env
      then (let pluginPath = localPluginPath env repoName;
                readmePath = pathJoin [pluginPath, ''README.md'']
            in if \<not> pathExists env pluginPath
               then (Inl (Error (''Plugin directory not found: '' @ pluginPath)), [])
               else if sublist ''plugins-automation/README.md'' readmePath
               then (Inl (Error ''CRITICAL: Attempted to overwrite plugins-automation README!''), [])
               else runSteps [(WriteFile readmePath readme, writeFile env readmePath readme)])
      else if \<not> octokit env
      then (Inl (Error ''GitHub token required for creating pull requests''), [])
      else (let branchName = ''update-readme-'' @ dateNow env;
                repoPath = pathJoin [cwd env, ''temp'', repoName];
                checkout = ''git checkout -b '' @ branchName;
                add = ''git add README.md'';
                commit = ''git commit -m "docs: update README with comprehensive documentation"'';
                push = ''git push origin '' @ branchName;
                target = pathJoin [repoPath, ''README.md'']
            in runSteps
                 [(Exec checkout (Some repoPath), execSync env checkout (Some repoPath)),
                  (WriteFile target readme, writeFile env target readme),
                  (Exec add (Some repoPath), execSync env add (Some repoPath)),
                  (Exec commit (Some repoPath), execSync env commit (Some repoPath)),
                  (Exec push (Some repoPath), execSync env push (Some repoPath)),
                  (PullsCreate repoName branchName, pullsCreate env repoName branchName)]))\<close>

text \<open>
  The steps of \<open>processPlugin\<close> between \<open>getPluginPath\<close> and \<open>createPullRequest\<close>: the
  plugin is extracted, the existing README read when there is one, and the new README
  generated.
\<close>

definition generateFor :: "Env \<Rightarrow> string \<Rightarrow> error + string" where
  "generateFor env repoPath =
     (case extractPluginInfo env repoPath of
        Inl e \<Rightarrow> Inl e
      | Inr pluginInfo \<Rightarrow>
          (let readmePath = pathJoin [repoPath, ''README.md'']
           in case (if pathExists env readmePath then readFile env readmePath else Inr []) of
                Inl e \<Rightarrow> Inl e
              | Inr existingReadme \<Rightarrow>
                  generateReadme (OPENAI_API_KEY env) (noAi env)
                    (readFile env (README_TEMPLATE_PATH env))
                    (chatCompletion env pluginInfo existingReadme)
                    pluginInfo (Some existingReadme)))"

text \<open>
  The body of the \<open>try\<close> of \<open>processPlugin\<close>: its outcome, its events, and the value of
  \<open>repoPath\<close> when it ends.
\<close>

definition tryBody :: "Env \<Rightarrow> string \<Rightarrow> string \<Rightarrow> (error + unit) \<times> event list \<times> string option" where
  "tryBody env repoNameOrUrl repoName =
     (case getPluginPath env repoNameOrUrl of
        (Inl e, evs) \<Rightarrow> (Inl e, evs, None)
      | (Inr repoPath, evs) \<Rightarrow>
          (case generateFor env repoPath of
             Inl e \<Rightarrow> (Inl e, evs, Some repoPath)
           | Inr readme \<Rightarrow>
               if readme = [] \<or> length (trim readme) = 0
               then (Inl (Error ''Generated README is empty''), evs, Some repoPath)
               else (case createPullRequest env repoName readme of
                       (Inl e, evs') \<Rightarrow> (Inl e, evs @ evs', Some repoPath)
                     | (Inr u, evs') \<Rightarrow>
                         if \<not> LOCAL_MODE env \<and> repoPath \<noteq> []
                         then ((case fsRemove env repoPath of None \<Rightarrow> Inr () | Some e \<Rightarrow> Inl e),
                               evs @ evs' @ [Remove repoPath], Some repoPath)
                         else (Inr (), evs @ evs', Some repoPath))))"

text \<open>
  \<open>processPlugin\<close>. The repository name is computed before the \<open>try\<close>, where a refused
  URL is thrown to the caller. An error of the body is caught: it is logged with the
  repository name, the clone is removed (a failure of that removal is ignored), and the
  function returns normally.
\<close>

definition processPlugin :: "Env \<Rightarrow> string \<Rightarrow> (error + unit) \<times> event list" where
  "processPlugin env repoNameOrUrl =
     (case resolveRepoName repoNameOrUrl of
        Inl e \<Rightarrow> (Inl e, [])
      | Inr repoName \<Rightarrow>
          (case tryBody env repoNameOrUrl repoName of
             (Inr u, evs, repoPath) \<Rightarrow> (Inr (), evs)
           | (Inl e, evs, repoPath) \<Rightarrow>
               (Inr (),
                evs @ [ConsoleError repoName e] @
                (case repoPath of
                   None \<Rightarrow> []
                 | Some p \<Rightarrow> if \<not> LOCAL_MODE env \<and> p \<noteq> [] then [Remove p] else []))))"

text \<open>
  The loop of \<open>main\<close>, \<open>for (const repo of pluginsToProcess) await processPlugin(repo)\<close>:
  an error thrown by \<open>processPlugin\<close> leaves the loop, and \<open>main\<close> ends the process.
\<close>

fun processAll :: "Env \<Rightarrow> string list \<Rightarrow> (error + unit) \<times> event list" where
  "processAll env [] = (Inr (), [])"
| "processAll env (repo # repos) =
     (case processPlugin env repo of
        (Inl e, evs) \<Rightarrow> (Inl e, evs)
      | (Inr u, evs) \<Rightarrow> (case processAll env repos of (r, evs') \<Rightarrow> (r, evs @ evs')))"


text \<open>
  Worlds on which the script is run below. In \<open>localEnv dir files\<close> the script runs in
  local mode from the directory \<open>dir\<close>, without an API key; every path exists, every
  file reads as \<open>files\<close> says (two spaces in \<open>blankFiles\<close>, a one-line template in
  \<open>templateFiles\<close>), every plugin is extracted as \<open>examplePlugin\<close>, and every call
  succeeds. \<open>remoteEnv\<close> is the same in remote mode, with a token.
\<close>

definition blankFiles :: "string \<Rightarrow> error + string" where
  "blankFiles p = Inr ''  ''"

definition templateFiles :: "string \<Rightarrow> error + string" where
  "templateFiles p = Inr ''# {{PLUGIN_NAME}}''"

definition localEnv :: "string \<Rightarrow> (string \<Rightarrow> error + string) \<Rightarrow> Env" where
  "localEnv dir files =
     \<lparr>LOCAL_MODE = True, octokit = False, cwd = dir, OPENAI_API_KEY = False, noAi = False,
      dateNow = ''1700000000000'', pathExists = (\<lambda>p. True), readFile = files,
      writeFile = (\<lambda>p d. None), fsRemove = (\<lambda>p. None), execSync = (\<lambda>c d. None),
      pullsCreate = (\<lambda>r b. None), extractPluginInfo = (\<lambda>p. Inr examplePlugin),
      chatCompletion = (\<lambda>i r. Inl (Error ''no API key''))\<rparr>"

definition remoteEnv :: "string \<Rightarrow> (string \<Rightarrow> error + string) \<Rightarrow> Env" where
  "remoteEnv dir files = (localEnv dir files)\<lparr>LOCAL_MODE := False, octokit := True\<rparr>"


section \<open>Methods of a service (generateReadmes.ts, extractDetailedComponentInfo)\<close>

text \<open>The class \<open>\w\<close>: letters, digits and the underscore.\<close>

definition isWord :: "char \<Rightarrow> bool" where
  "isWord c =
     (let n = (of_char c :: nat)
      in (48 \<le> n \<and> n \<le> 57) \<or> (65 \<le> n \<and> n \<le> 90) \<or> n = 95 \<or> (97 \<le> n \<and> n \<le> 122))"

text \<open>
  A match of \<open>/(?:async\s+)?(\w+)\s*\([^)]*\)\s*(?::\s*[^{]+)?\s*{/\<close> that begins at the
  start of \<open>s\<close>: the captured name and the text after the match. Every quantifier is
  followed by a character outside its class, so a greedy match takes the longest run
  and a shorter run cannot succeed.

  \<open>methodTail\<close> is \<open>\s*(?::\s*[^{]+)?\s*{\<close>: after the white space either the brace, or a
  colon, at least one character other than a brace (white space may count), and the
  brace.
\<close>

definition methodTail :: "string \<Rightarrow> string option" where
  "methodTail s =
     (case dropWhile isSpace s of
        [] \<Rightarrow> None
      | c # r \<Rightarrow>
          if c = CHR ''{'' then Some r
          else if c = CHR '':'' then
            (case dropWhile (\<lambda>x. x \<noteq> CHR ''{'') r of
               [] \<Rightarrow> None
             | b # r' \<Rightarrow> if takeWhile (\<lambda>x. x \<noteq> CHR ''{'') r = [] then None else Some r')
          else None)"

text \<open>\<open>(\w+)\s*\([^)]*\)\<close> followed by the tail.\<close>

definition methodCore :: "string \<Rightarrow> (string \<times> string) option" where
  "methodCore s =
     (let name = takeWhile isWord s
      in if name = [] then None
         else (case dropWhile isSpace (dropWhile isWord s) of
                 [] \<Rightarrow> None
               | c # r \<Rightarrow>
                   if c \<noteq> CHR ''('' then None
                   else (case dropWhile (\<lambda>x. x \<noteq> CHR '')'') r of
                           [] \<Rightarrow> None
                         | b # r' \<Rightarrow>
                             (case methodTail r' of
                                None \<Rightarrow> None
                              | Some rest \<Rightarrow> Some (name, rest)))))"

text \<open>The optional \<open>async\s+\<close> is tried first; when the rest fails after it, it is left out.\<close>

definition asyncPrefix :: "string \<Rightarrow> string option" where
  "asyncPrefix s =
     (if prefix ''async'' s \<and> takeWhile isSpace (drop 5 s) \<noteq> []
      then Some (dropWhile isSpace (drop 5 s)) else None)"

definition methodMatch :: "string \<Rightarrow> (string \<times> string) option" where
  "methodMatch s =
     (case asyncPrefix s of
        None \<Rightarrow> methodCore s
      | Some r \<Rightarrow> (case methodCore r of None \<Rightarrow> methodCore s | Some m \<Rightarrow> Some m))"

text \<open>
  The loop \<open>while ((methodMatch = methodRegex.exec(sourceCode)) !== null)\<close> of a global
  regular expression: the leftmost match from the current position, then the search
  goes on after that match.
\<close>

function methodNames :: "string \<Rightarrow> string list" where
  "methodNames [] = []"
| "methodNames (c # cs) =
     (case methodMatch (c # cs) of
        Some (name, rest) \<Rightarrow> name # methodNames rest
      | None \<Rightarrow> methodNames cs)"
  by pat_completeness auto
termination
proof (relation "measure length")
  show "wf (measure length)" by simp
next
  fix c :: char and cs :: string
  show "(cs, c # cs) \<in> measure length" by simp
next
  fix c :: char and cs :: string and x :: "string \<times> string" and name rest :: string
  assume m: "methodMatch (c # cs) = Some x" and x: "(name, rest) = x"
  have tail: "length r < length s" if "methodTail s = Some r" for s r
  proof -
    have a: "length (dropWhile isSpace s) \<le> length s" by (rule length_dropWhile_le)
    have b: "length (dropWhile (\<lambda>x. x \<noteq> CHR ''{'') t) \<le> length t" for t
      by (rule length_dropWhile_le)
    from that a b [of "tl (dropWhile isSpace s)"] show ?thesis
      by (auto simp: methodTail_def split: list.splits if_splits)
  qed
  have core: "length r < length s" if "methodCore s = Some (n, r)" for s n r
  proof -
    have a: "length (dropWhile isSpace (dropWhile isWord s)) \<le> length s"
      using length_dropWhile_le [of isSpace "dropWhile isWord s"] length_dropWhile_le [of isWord s]
      by simp
    have b: "length (dropWhile (\<lambda>x. x \<noteq> CHR '')'') t) \<le> length t" for t
      by (rule length_dropWhile_le)
    from that obtain c1 r1 b1 r2 where
      "dropWhile isSpace (dropWhile isWord s) = c1 # r1"
      "dropWhile (\<lambda>x. x \<noteq> CHR '')'') r1 = b1 # r2" "methodTail r2 = Some r"
      by (auto simp: methodCore_def Let_def split: list.splits if_splits option.splits)
    with a b [of r1] tail [of r2 r] show ?thesis by simp
  qed
  have pre: "length r \<le> length s" if "asyncPrefix s = Some r" for s r
    using that length_dropWhile_le [of isSpace "drop 5 s"]
    by (auto simp: asyncPrefix_def split: if_splits)
  from m x have "length rest < length (c # cs)"
    by (auto simp: methodMatch_def split: option.splits dest!: core pre)
  then show "(rest, c # cs) \<in> measure length" by simp
qed

text \<open>
  The first match of \<open>(?:async\s+)?NAME\s*\(([^)]*)\)\s*(?::\s*([^{]+))?\<close> in the text,
  for a name made of word characters: its first group, the text between the
  parentheses. What follows the closing parenthesis always matches.
\<close>

definition signatureCore :: "string \<Rightarrow> string \<Rightarrow> string option" where
  "signatureCore name s =
     (if \<not> prefix name s then None
      else (case dropWhile isSpace (drop (length name) s) of
              [] \<Rightarrow> None
            | c # r \<Rightarrow>
                if c \<noteq> CHR ''('' then None
                else if dropWhile (\<lambda>x. x \<noteq> CHR '')'') r = [] then None
                else Some (takeWhile (\<lambda>x. x \<noteq> CHR '')'') r)))"

definition signatureMatch :: "string \<Rightarrow> string \<Rightarrow> string option" where
  "signatureMatch name s =
     (case asyncPrefix s of
        None \<Rightarrow> signatureCore name s
      | Some r \<Rightarrow> (case signatureCore name r of None \<Rightarrow> signatureCore name s | Some m \<Rightarrow> Some m))"

fun firstSignature :: "string \<Rightarrow> string \<Rightarrow> string option" where
  "firstSignature name [] = signatureMatch name []"
| "firstSignature name (c # cs) =
     (case signatureMatch name (c # cs) of
        Some parameters \<Rightarrow> Some parameters
      | None \<Rightarrow> firstSignature name cs)"

text \<open>
  The part of \<open>extractDetailedComponentInfo\<close> for a service: every name found by the
  loop, unless it is empty, is \<open>constructor\<close> or starts with an underscore, is looked up
  again for its parameters and pushed. \<open>info.methods\<close> is set when the list is not empty.
\<close>

definition methodOf :: "string \<Rightarrow> string \<Rightarrow> Method list" where
  "methodOf sourceCode methodName =
     (if methodName \<noteq> [] \<and> methodName \<noteq> ''constructor'' \<and> \<not> prefix ''_'' methodName
      then (case firstSignature methodName sourceCode of
              None \<Rightarrow> []
            | Some parameters \<Rightarrow>
                [\<lparr>met_name = methodName, met_parameters = parameters, met_description = []\<rparr>])
      else [])"

definition extractMethods :: "string \<Rightarrow> Method list" where
  "extractMethods sourceCode =
     concat (map (methodOf sourceCode) (methodNames sourceCode))"

definition serviceMethods :: "string \<Rightarrow> Method list option" where
  "serviceMethods sourceCode =
     (let methods = extractMethods sourceCode
      in if length methods > 0 then Some methods else None)"

text \<open>
  A method-call-like pattern for \<open>name\<close> in a text: the name, made of word characters,
  then white space, an opening parenthesis, text without a closing parenthesis, the
  closing parenthesis and, further on, an opening brace.
\<close>

abbreviation callLike :: "string \<Rightarrow> string \<Rightarrow> bool" where
  "callLike name s \<equiv>
     (\<exists>pre ws args post.
        s = pre @ name @ ws @ CHR ''('' # args @ CHR '')'' # post \<and>
        name \<noteq> [] \<and> (\<forall>c \<in> set name. isWord c) \<and> (\<forall>c \<in> set ws. isSpace c) \<and>
        CHR '')'' \<notin> set args \<and> CHR ''{'' \<in> set post)"

text \<open>A service on which the extraction is run below.\<close>

definition walletService :: string where
  \<open>walletService =
     ''export class WalletService extends Service {'' @ NL @
     ''  constructor(runtime: IAgentRuntime) {'' @ NL @
     ''    super(runtime);'' @ NL @
     ''  }'' @ NL @
     ''  async getBalance(address: string): Promise<number> {'' @ NL @
     ''    return this._fetch(address);'' @ NL @
     ''  }'' @ NL @
     ''  private _fetch(address) {'' @ NL @
     ''    return 0;'' @ NL @
     ''  }'' @ NL @
     ''  stop (): void {'' @ NL @
     ''  }'' @ NL @
     ''}'' @ NL\<close>


section \<open>Environment variables (generateReadmes.ts, extractPluginInfo)\<close>

text \<open>
  The four patterns of the scan:
  \<open>/process\.env\.(\w+)/g\<close>, \<open>/getSetting\(['"](\w+)['"]\)/g\<close>,
  \<open>/getEnv\(['"](\w+)['"]\)/g\<close> and \<open>/runtime\.getSetting\(['"](\w+)['"]\)/g\<close>.
\<close>

datatype envPattern = ProcessEnv | GetSetting | GetEnv | RuntimeGetSetting

definition isQuote :: "char \<Rightarrow> bool" where
  "isQuote c = (c = CHR 0x27 \<or> c = CHR 0x22)"

text \<open>
  \<open>NAME\(['"](\w+)['"]\)\<close> at the start of \<open>s\<close>: the captured identifier and the text
  after the match. The identifier is the longest run of word characters; a shorter run
  is followed by a word character, not by a quote.
\<close>

definition getterMatch :: "string \<Rightarrow> string \<Rightarrow> (string \<times> string) option" where
  "getterMatch getter s =
     (if \<not> prefix (getter @ ''('') s then None
      else (case drop (length getter + 1) s of
              [] \<Rightarrow> None
            | q # r \<Rightarrow>
                if \<not> isQuote q \<or> takeWhile isWord r = [] then None
                else (case dropWhile isWord r of
                        q' # p # rest \<Rightarrow>
                          if isQuote q' \<and> p = CHR '')'' then Some (takeWhile isWord r, rest) else None
                      | _ \<Rightarrow> None)))"

fun envMatch :: "envPattern \<Rightarrow> string \<Rightarrow> (string \<times> string) option" where
  "envMatch ProcessEnv s =
     (if prefix ''process.env.'' s \<and> takeWhile isWord (drop 12 s) \<noteq> []
      then Some (takeWhile isWord (drop 12 s), dropWhile isWord (drop 12 s)) else None)"
| "envMatch GetSetting s = getterMatch ''getSetting'' s"
| "envMatch GetEnv s = getterMatch ''getEnv'' s"
| "envMatch RuntimeGetSetting s = getterMatch ''runtime.getSetting'' s"

text \<open>
  The loop \<open>while ((match = pattern.exec(content)) !== null)\<close> for one pattern: the
  captured identifiers of all matches, from left to right.
\<close>

function envMatches :: "envPattern \<Rightarrow> string \<Rightarrow> string list" where
  "envMatches pattern [] = []"
| "envMatches pattern (c # cs) =
     (case envMatch pattern (c # cs) of
        Some (name, rest) \<Rightarrow> name # envMatches pattern rest
      | None \<Rightarrow> envMatches pattern cs)"
  by pat_completeness auto
termination
proof (relation "measure (\<lambda>(pattern, s). length s)")
  show "wf (measure (\<lambda>(pattern, s). length s))" by simp
next
  fix pattern :: envPattern and c :: char and cs :: string
  show "((pattern, cs), pattern, c # cs) \<in> measure (\<lambda>(pattern, s). length s)" by simp
next
  fix pattern :: envPattern and c :: char and cs :: string
    and x :: "string \<times> string" and name rest :: string
  assume m: "envMatch pattern (c # cs) = Some x" and x: "(name, rest) = x"
  have getter: "length r < length s" if "getterMatch g s = Some (n, r)" for g s n r
  proof -
    from that obtain q t q' p where
      a: "drop (length g + 1) s = q # t" and b: "dropWhile isWord t = q' # p # r"
      by (auto simp: getterMatch_def split: list.splits if_splits)
    have "length (dropWhile isWord t) \<le> length t" by (rule length_dropWhile_le)
    with b have "length r < length t" by simp
    moreover from a have "length t < length s"
      by (metis drop_all length_Cons length_drop less_Suc_eq_le linorder_not_le list.distinct(1)
          diff_le_self)
    ultimately show ?thesis by simp
  qed
  have dot: "length (dropWhile isWord (drop 12 s)) < length s"
    if "takeWhile isWord (drop 12 s) \<noteq> []" for s
  proof -
    from that have "drop 12 s \<noteq> []" by auto
    then have "length (drop 12 s) < length s" by simp
    moreover have "length (dropWhile isWord (drop 12 s)) \<le> length (drop 12 s)"
      by (rule length_dropWhile_le)
    ultimately show ?thesis by simp
  qed
  have consume: "length r < length s" if "envMatch pat s = Some (n, r)" for pat s n r
    using that by (cases pat) (auto split: if_splits dest: getter dot)
  from m x have "length rest < length (c # cs)"
    by (intro consume [of pattern "c # cs" name]) simp
  then show "((pattern, rest), pattern, c # cs) \<in> measure (\<lambda>(pattern, s). length s)" by simp
qed

text \<open>
  \<open>envVars\<close> is a \<open>Set\<close>: it keeps its elements in the order of their first insertion.
\<close>

definition setAdd :: "string list \<Rightarrow> string \<Rightarrow> string list" where
  "setAdd envVars x = (if x \<in> set envVars then envVars else envVars @ [x])"

definition envPatterns :: "envPattern list" where
  "envPatterns = [ProcessEnv, GetSetting, GetEnv, RuntimeGetSetting]"

definition scanContent :: "string \<Rightarrow> string list \<Rightarrow> string list" where
  "scanContent content envVars =
     foldl (\<lambda>vars pattern. foldl setAdd vars (envMatches pattern content)) envVars envPatterns"

text \<open>
  What \<open>fs.readdir\<close>, \<open>fs.stat\<close> and \<open>fs.readFile\<close> find below a directory: a file with
  its name and text, a directory with its name and its entries in the order of the
  listing, or an entry on which \<open>stat\<close> or the read fails with an error.
\<close>

datatype entry = File string string | Dir string "entry list" | Broken string error

text \<open>
  \<open>searchForEnvVars\<close>. A directory is entered unless its name contains \<open>node_modules\<close>
  or \<open>.git\<close>; any other entry whose name ends in \<open>.ts\<close> or \<open>.js\<close> is read as a file,
  which fails for a directory.
\<close>

fun searchForEnvVars :: "entry list \<Rightarrow> string list \<Rightarrow> error + string list"
  and searchEntry :: "entry \<Rightarrow> string list \<Rightarrow> error + string list" where
  "searchForEnvVars [] envVars = Inr envVars"
| "searchForEnvVars (file # files) envVars =
     (case searchEntry file envVars of
        Inl e \<Rightarrow> Inl e
      | Inr envVars' \<Rightarrow> searchForEnvVars files envVars')"
| "searchEntry (Dir name files) envVars =
     (if \<not> sublist ''node_modules'' name \<and> \<not> sublist ''.git'' name
      then searchForEnvVars files envVars
      else if suffix ''.ts'' name \<or> suffix ''.js'' name
      then Inl (Error ''EISDIR: illegal operation on a directory, read'')
      else Inr envVars)"
| "searchEntry (File name content) envVars =
     (if suffix ''.ts'' name \<or> suffix ''.js'' name then Inr (scanContent content envVars)
      else Inr envVars)"
| "searchEntry (Broken name e) envVars = Inl e"

text \<open>
  The scan of \<open>extractPluginInfo\<close> on the entries of the directory it starts from, and
  \<open>pluginInfo.envVars = Array.from(envVars).sort()\<close>: the default order of \<open>sort\<close>
  compares strings code unit by code unit, the order of \<^typ>\<open>string\<close>.
\<close>

definition scanEnvVars :: "entry list \<Rightarrow> error + string list" where
  "scanEnvVars files =
     (case searchForEnvVars files [] of
        Inl e \<Rightarrow> Inl e
      | Inr envVars \<Rightarrow> Inr (sort envVars))"

text \<open>
  The identifiers a tree holds, as a set: those of the files that the scan reads.
\<close>

fun discovered :: "entry list \<Rightarrow> string set"
  and discoveredIn :: "entry \<Rightarrow> string set" where
  "discovered [] = {}"
| "discovered (file # files) = discoveredIn file \<union> discovered files"
| "discoveredIn (Dir name files) =
     (if \<not> sublist ''node_modules'' name \<and> \<not> sublist ''.git'' name then discovered files else {})"
| "discoveredIn (File name content) =
     (if suffix ''.ts'' name \<or> suffix ''.js'' name
      then (\<Union>pattern \<in> set envPatterns. set (envMatches pattern content)) else {})"
| "discoveredIn (Broken name e) = {}"

definition settingsFile :: string where
  \<open>settingsFile =
     ''const a = process.env.FOO;'' @ NL @
     ''const b = runtime.getSetting("BAR");'' @ NL @
     ''const c = process.env.FOO || a;'' @ NL\<close>


section \<open>Actions of a plugin (generateReadmes.ts, extractPluginComponents)\<close>

text \<open>
  Pieces of a regular expression, each applied at the start of a text and giving the
  text after it: a literal, \<open>\s+\<close>, \<open>\s*\<close> and \<open>["']\<close>. \<open>firstMatch\<close> is the search of
  \<open>s.match(re)\<close>: the match at the leftmost position that has one.
\<close>

definition literal :: "string \<Rightarrow> string \<Rightarrow> string option" where
  "literal l s = (if prefix l s then Some (drop (length l) s) else None)"

definition spaces1 :: "string \<Rightarrow> string option" where
  "spaces1 s = (if takeWhile isSpace s = [] then None else Some (dropWhile isSpace s))"

definition spaces0 :: "string \<Rightarrow> string option" where
  "spaces0 s = Some (dropWhile isSpace s)"

definition quote :: "string \<Rightarrow> string option" where
  "quote s = (case s of [] \<Rightarrow> None | c # r \<Rightarrow> if isQuote c then Some r else None)"

fun firstMatch :: "(string \<Rightarrow> 'a option) \<Rightarrow> string \<Rightarrow> 'a option" where
  "firstMatch m [] = m []"
| "firstMatch m (c # cs) = (case m (c # cs) of Some x \<Rightarrow> Some x | None \<Rightarrow> firstMatch m cs)"

text \<open>
  \<open>/import\s+(?:{([^}]+)}|(\w+))\s+from\s+["']\.\/actions(?:\/([^"']+))?["']/g\<close> at the
  start of a text: the first group (the names between the braces) or the second (a
  default import), and the text after the match.
\<close>

definition importClause :: "string \<Rightarrow> (string option \<times> string option \<times> string) option" where
  "importClause s =
     (case s of
        [] \<Rightarrow> None
      | c # r \<Rightarrow>
          if c = CHR ''{'' then
            (if takeWhile (\<lambda>x. x \<noteq> CHR ''}'') r = [] then None
             else (case dropWhile (\<lambda>x. x \<noteq> CHR ''}'') r of
                     [] \<Rightarrow> None
                   | b # r' \<Rightarrow> Some (Some (takeWhile (\<lambda>x. x \<noteq> CHR ''}'') r), None, r')))
          else if takeWhile isWord s = [] then None
          else Some (None, Some (takeWhile isWord s), dropWhile isWord s))"

definition subPath :: "string \<Rightarrow> string option" where
  "subPath s =
     (case s of
        [] \<Rightarrow> Some s
      | c # r \<Rightarrow>
          if c = CHR ''/'' then
            (if takeWhile (\<lambda>x. \<not> isQuote x) r = [] then None
             else Some (dropWhile (\<lambda>x. \<not> isQuote x) r))
          else Some s)"

definition importMatch :: "string \<Rightarrow> (string option \<times> string option \<times> string) option" where
  "importMatch s =
     Option.bind (literal ''import'' s) (\<lambda>s.
     Option.bind (spaces1 s) (\<lambda>s.
     Option.bind (importClause s) (\<lambda>(named, defaultImport, s).
     Option.bind (spaces1 s) (\<lambda>s.
     Option.bind (literal ''from'' s) (\<lambda>s.
     Option.bind (spaces1 s) (\<lambda>s.
     Option.bind (quote s) (\<lambda>s.
     Option.bind (literal ''./actions'' s) (\<lambda>s.
     Option.bind (subPath s) (\<lambda>s.
     Option.bind (quote s) (\<lambda>s. Some (named, defaultImport, s)))))))))))"

text \<open>\<open>indexContent.matchAll(...)\<close>: all matches from left to right, without overlap.\<close>

function importMatches :: "string \<Rightarrow> (string option \<times> string option) list" where
  "importMatches [] = []"
| "importMatches (c # cs) =
     (case importMatch (c # cs) of
        Some (named, defaultImport, rest) \<Rightarrow> (named, defaultImport) # importMatches rest
      | None \<Rightarrow> importMatches cs)"
  by pat_completeness auto
termination
proof (relation "measure length")
  show "wf (measure length)" by simp
next
  fix c :: char and cs :: string
  show "(cs, c # cs) \<in> measure length" by simp
next
  fix c :: char and cs :: string and x :: "string option \<times> string option \<times> string"
    and named :: "string option" and y :: "string option \<times> string"
    and defaultImport :: "string option" and rest :: string
  assume m: "importMatch (c # cs) = Some x" and x: "(named, y) = x" and y: "(defaultImport, rest) = y"
  have lit: "length r \<le> length s" if "literal l s = Some r" for l s r
    using that by (auto simp: literal_def split: if_splits)
  have import: "length r < length s" if "literal ''import'' s = Some r" for s r
    using that by (auto simp: literal_def prefix_def split: if_splits)
  have sp: "length r \<le> length s" if "spaces1 s = Some r" for s r
    using that length_dropWhile_le [of isSpace s] by (auto simp: spaces1_def split: if_splits)
  have qu: "length r \<le> length s" if "quote s = Some r" for s r
    using that by (auto simp: quote_def split: list.splits if_splits)
  have sub: "length r \<le> length s" if "subPath s = Some r" for s r
  proof (cases s)
    case Nil
    with that show ?thesis by (simp add: subPath_def)
  next
    case (Cons a t)
    with that length_dropWhile_le [of "\<lambda>x. \<not> isQuote x" t] show ?thesis
      by (auto simp: subPath_def split: if_splits)
  qed
  have cl: "length r \<le> length s" if "importClause s = Some (n, d, r)" for s n d r
  proof (cases s)
    case Nil
    with that show ?thesis by (simp add: importClause_def)
  next
    case (Cons a t)
    show ?thesis
    proof (cases "a = CHR ''{''")
      case True
      with that Cons obtain b where "dropWhile (\<lambda>x. x \<noteq> CHR ''}'') t = b # r"
        by (auto simp: importClause_def split: if_splits list.splits)
      with length_dropWhile_le [of "\<lambda>x. x \<noteq> CHR ''}''" t] Cons show ?thesis by simp
    next
      case False
      with that Cons have "r = dropWhile isWord s"
        by (auto simp: importClause_def split: if_splits)
      with length_dropWhile_le [of isWord s] show ?thesis by simp
    qed
  qed
  from m x y obtain s1 s2 s3 s4 s5 s6 s7 s8 s9 where
    "literal ''import'' (c # cs) = Some s1" "spaces1 s1 = Some s2"
    "importClause s2 = Some (named, defaultImport, s3)" "spaces1 s3 = Some s4"
    "literal ''from'' s4 = Some s5" "spaces1 s5 = Some s6" "quote s6 = Some s7"
    "literal ''./actions'' s7 = Some s8" "subPath s8 = Some s9" "quote s9 = Some rest"
    by (auto simp: importMatch_def bind_eq_Some_conv)
  then have "length rest < length (c # cs)"
    using import [of "c # cs" s1] sp [of s1 s2] cl [of s2 named defaultImport s3] sp [of s3 s4]
      lit [of "''from''" s4 s5] sp [of s5 s6] qu [of s6 s7] lit [of "''./actions''" s7 s8]
      sub [of s8 s9] qu [of s9 rest]
    by linarith
  then show "(rest, c # cs) \<in> measure length" by simp
qed

text \<open>
  The table \<open>actionImports\<close>, from alias to original name. A named import \<open>a as b\<close>
  binds \<open>b\<close> to \<open>a\<close>, a name without \<open>as\<close> and a default import are bound to themselves;
  a later binding of the same alias replaces the earlier one.
\<close>

definition bindImport :: "(string \<rightharpoonup> string) \<Rightarrow> string \<Rightarrow> (string \<rightharpoonup> string)" where
  "bindImport actionImports imp =
     (let parts = splitString imp '' as '';
          alias = last parts;
          original = (if hd parts = [] then alias else hd parts)
      in if alias \<noteq> [] \<and> original \<noteq> [] then actionImports(alias \<mapsto> original) else actionImports)"

definition bindMatch :: "(string \<rightharpoonup> string) \<Rightarrow> string option \<times> string option \<Rightarrow> (string \<rightharpoonup> string)" where
  "bindMatch actionImports m =
     (case m of
        (Some named, defaultImport) \<Rightarrow>
          if named \<noteq> [] then foldl bindImport actionImports (map trim (splitString named '',''))
          else (case defaultImport of
                  Some d \<Rightarrow> if d \<noteq> [] then actionImports(d \<mapsto> d) else actionImports
                | None \<Rightarrow> actionImports)
      | (None, Some d) \<Rightarrow> if d \<noteq> [] then actionImports(d \<mapsto> d) else actionImports
      | (None, None) \<Rightarrow> actionImports)"

definition actionImports :: "string \<Rightarrow> (string \<rightharpoonup> string)" where
  "actionImports indexContent = foldl bindMatch Map.empty (importMatches indexContent)"

text \<open>
  The four patterns for the array of actions, in the order they are tried:
  \<open>/actions:\s*\[(.*?)\]/s\<close>, \<open>/export\s+const\s+actions\s*=\s*\[(.*?)\]/s\<close>,
  \<open>/\.actions\s*=\s*\[(.*?)\]/s\<close> and
  \<open>/export\s+default\s+{\s*[^}]*actions:\s*\[(.*?)\]/s\<close>. Each gives its group: the text
  from the bracket to the first closing bracket. In the fourth, \<open>\s*[^}]*\<close> is greedy:
  among the positions before the first closing brace, the last one where the rest
  matches is taken.
\<close>

datatype actionPattern = ActionsColon | ExportConstActions | DotActions | ExportDefault

definition arrayBody :: "string \<Rightarrow> string option" where
  "arrayBody s =
     (case dropWhile isSpace s of
        [] \<Rightarrow> None
      | c # r \<Rightarrow>
          if c = CHR ''['' \<and> dropWhile (\<lambda>x. x \<noteq> CHR '']'') r \<noteq> []
          then Some (takeWhile (\<lambda>x. x \<noteq> CHR '']'') r) else None)"

definition actionsColon :: "string \<Rightarrow> string option" where
  "actionsColon s = Option.bind (literal ''actions:'' s) arrayBody"

fun lastActionsColon :: "string \<Rightarrow> string option" where
  "lastActionsColon [] = None"
| "lastActionsColon (c # cs) =
     (if c = CHR ''}'' then None
      else (case lastActionsColon cs of
              Some content \<Rightarrow> Some content
            | None \<Rightarrow> actionsColon (c # cs)))"

fun arrayMatch :: "actionPattern \<Rightarrow> string \<Rightarrow> string option" where
  "arrayMatch ActionsColon s = actionsColon s"
| "arrayMatch ExportConstActions s =
     Option.bind (literal ''export'' s) (\<lambda>s.
     Option.bind (spaces1 s) (\<lambda>s.
     Option.bind (literal ''const'' s) (\<lambda>s.
     Option.bind (spaces1 s) (\<lambda>s.
     Option.bind (literal ''actions'' s) (\<lambda>s.
     Option.bind (spaces0 s) (\<lambda>s.
     Option.bind (literal ''='' s) arrayBody))))))"
| "arrayMatch DotActions s =
     Option.bind (literal ''.actions'' s) (\<lambda>s.
     Option.bind (spaces0 s) (\<lambda>s.
     Option.bind (literal ''='' s) arrayBody))"
| "arrayMatch ExportDefault s =
     Option.bind (literal ''export'' s) (\<lambda>s.
     Option.bind (spaces1 s) (\<lambda>s.
     Option.bind (literal ''default'' s) (\<lambda>s.
     Option.bind (spaces1 s) (\<lambda>s.
     Option.bind (literal ''{'' s) lastActionsColon))))"

definition actionPatterns :: "actionPattern list" where
  "actionPatterns = [ActionsColon, ExportConstActions, DotActions, ExportDefault]"

text \<open>
  The two removals of comments: \<open>.replace(/\/\/.*$/gm, '')\<close> takes away everything from
  \<open>//\<close> to the end of the line, \<open>.replace(/\/\*[\s\S]*?\*\//g, '')\<close> everything from \<open>/*\<close>
  to the first \<open>*/\<close> after it, when there is one.
\<close>

definition isLineEnd :: "char \<Rightarrow> bool" where
  "isLineEnd c = (c = CHR 0x0A \<or> c = CHR 0x0D)"

function stripLineComments :: "string \<Rightarrow> string" where
  "stripLineComments [] = []"
| "stripLineComments (c # cs) =
     (if prefix ''//'' (c # cs) then stripLineComments (dropWhile (\<lambda>x. \<not> isLineEnd x) cs)
      else c # stripLineComments cs)"
  by pat_completeness auto
termination
  by (relation "measure length") (auto simp: less_Suc_eq_le length_dropWhile_le)

fun dropUntil :: "string \<Rightarrow> string \<Rightarrow> string option" where
  "dropUntil pat [] = (if pat = [] then Some [] else None)"
| "dropUntil pat (c # cs) =
     (if prefix pat (c # cs) then Some (drop (length pat) (c # cs)) else dropUntil pat cs)"

function stripBlockComments :: "string \<Rightarrow> string" where
  "stripBlockComments [] = []"
| "stripBlockComments (c # cs) =
     (if prefix ''/*'' (c # cs) then
        (case dropUntil ''*/'' (drop 2 (c # cs)) of
           Some rest \<Rightarrow> stripBlockComments rest
         | None \<Rightarrow> c # stripBlockComments cs)
      else c # stripBlockComments cs)"
  by pat_completeness auto
termination
proof (relation "measure length")
  show "wf (measure length)" by simp
next
  fix c :: char and cs :: string
  show "(cs, c # cs) \<in> measure length" by simp
next
  fix c :: char and cs :: string
  show "(cs, c # cs) \<in> measure length" by simp
next
  fix c :: char and cs :: string and rest :: string
  assume p: "prefix ''/*'' (c # cs)" and d: "dropUntil ''*/'' (drop 2 (c # cs)) = Some rest"
  have until: "length r \<le> length s" if "dropUntil pat s = Some r" for pat s r
    using that by (induction s) (auto split: if_splits)
  from p have "length (drop 2 (c # cs)) < length (c # cs)" by simp
  with until [OF d] have "length rest < length (c # cs)" by linarith
  then show "(rest, c # cs) \<in> measure length" by simp
qed

definition cleanContent :: "string \<Rightarrow> string" where
  "cleanContent content = stripBlockComments (stripLineComments content)"

text \<open>
  \<open>cleanContent.match(/\b[a-zA-Z_]\w+\b/g) || []\<close>: every maximal run of word characters
  that has at least two characters and does not begin with a digit.
\<close>

definition isDigit :: "char \<Rightarrow> bool" where
  "isDigit c = (let n = (of_char c :: nat) in 48 \<le> n \<and> n \<le> 57)"

function wordRefs :: "string \<Rightarrow> string list" where
  "wordRefs [] = []"
| "wordRefs (c # cs) =
     (if isWord c then
        (if takeWhile isWord cs \<noteq> [] \<and> \<not> isDigit c
         then (c # takeWhile isWord cs) # wordRefs (dropWhile isWord cs)
         else wordRefs (dropWhile isWord cs))
      else wordRefs cs)"
  by pat_completeness auto
termination
  by (relation "measure length") (auto simp: less_Suc_eq_le length_dropWhile_le)

text \<open>
  \<open>cleanContent.matchAll(/{[^}]*name:\s*["'](\w+)["'][^}]*}/g)\<close>: for an opening brace
  that has a closing brace after it, the last \<open>name: '...'\<close> before that closing brace.
\<close>

definition nameProperty :: "string \<Rightarrow> string option" where
  "nameProperty s =
     Option.bind (literal ''name:'' s) (\<lambda>s.
     Option.bind (spaces0 s) (\<lambda>s.
     Option.bind (quote s) (\<lambda>s.
       if takeWhile isWord s = [] then None
       else Option.bind (quote (dropWhile isWord s)) (\<lambda>r. Some (takeWhile isWord s)))))"

fun lastNameProperty :: "string \<Rightarrow> string option" where
  "lastNameProperty [] = None"
| "lastNameProperty (c # cs) =
     (case lastNameProperty cs of
        Some name \<Rightarrow> Some name
      | None \<Rightarrow> nameProperty (c # cs))"

function inlineActions :: "string \<Rightarrow> string list" where
  "inlineActions [] = []"
| "inlineActions (c # cs) =
     (if c = CHR ''{'' \<and> dropWhile (\<lambda>x. x \<noteq> CHR ''}'') cs \<noteq> [] then
        (case lastNameProperty (takeWhile (\<lambda>x. x \<noteq> CHR ''}'') cs) of
           Some name \<Rightarrow> name # inlineActions (tl (dropWhile (\<lambda>x. x \<noteq> CHR ''}'') cs))
         | None \<Rightarrow> inlineActions cs)
      else inlineActions cs)"
  by pat_completeness auto
termination
proof (relation "measure length")
  show "wf (measure length)" by simp
next
  fix c :: char and cs :: string
  show "(cs, c # cs) \<in> measure length" by simp
next
  fix c :: char and cs :: string
  show "(cs, c # cs) \<in> measure length" by simp
next
  fix c :: char and cs :: string and x :: string
  have "length (tl (dropWhile (\<lambda>x. x \<noteq> CHR ''}'') cs)) \<le> length cs"
    using length_dropWhile_le [of "\<lambda>x. x \<noteq> CHR ''}''" cs] by simp
  then show "(tl (dropWhile (\<lambda>x. x \<noteq> CHR ''}'') cs), c # cs) \<in> measure length" by simp
qed

text \<open>
  The loop over the references and then over the inline names. \<open>details name\<close> is what
  \<open>readComponentSource\<close> and \<open>extractDetailedComponentInfo\<close> give for a component: its
  fields other than the name, or the error thrown (the name becomes part of a regular
  expression, which may not compile). \<open>Object.assign\<close> does not change the name, since
  the details have no field \<open>name\<close>.
\<close>

definition jsKeywords :: "string list" where
  "jsKeywords = [''const'', ''let'', ''var'', ''function'', ''class'', ''import'', ''export'', ''new'',
               ''return'', ''if'', ''else'', ''for'', ''while'', ''do'', ''break'', ''continue'']"

definition componentNameOf :: "(string \<rightharpoonup> string) \<Rightarrow> string \<Rightarrow> string" where
  "componentNameOf imports ref =
     (case imports ref of None \<Rightarrow> ref | Some importName \<Rightarrow> if importName = [] then ref else importName)"

definition pushComponent ::
  "(string \<Rightarrow> error + ComponentInfo) \<Rightarrow> string \<Rightarrow> ComponentInfo list \<times> string set
     \<Rightarrow> error + ComponentInfo list \<times> string set" where
  "pushComponent details componentName state =
     (case details componentName of
        Inl e \<Rightarrow> Inl e
      | Inr component \<Rightarrow>
          Inr (fst state @ [component\<lparr>ci_name := componentName\<rparr>], insert componentName (snd state)))"

fun addRefs ::
  "(string \<Rightarrow> error + ComponentInfo) \<Rightarrow> (string \<rightharpoonup> string) \<Rightarrow> string list
     \<Rightarrow> ComponentInfo list \<times> string set \<Rightarrow> error + ComponentInfo list \<times> string set" where
  "addRefs details imports [] state = Inr state"
| "addRefs details imports (ref # refs) state =
     (if ref \<noteq> [] \<and> ref \<notin> set jsKeywords \<and> ref \<notin> snd state
      then (case pushComponent details (componentNameOf imports ref) state of
              Inl e \<Rightarrow> Inl e
            | Inr state' \<Rightarrow> addRefs details imports refs state')
      else addRefs details imports refs state)"

fun addInline ::
  "(string \<Rightarrow> error + ComponentInfo) \<Rightarrow> string list
     \<Rightarrow> ComponentInfo list \<times> string set \<Rightarrow> error + ComponentInfo list \<times> string set" where
  "addInline details [] state = Inr state"
| "addInline details (name # names) state =
     (if name \<noteq> [] \<and> name \<notin> snd state
      then (case pushComponent details name state of
              Inl e \<Rightarrow> Inl e
            | Inr state' \<Rightarrow> addInline details names state')
      else addInline details names state)"

definition actionComponents ::
  "(string \<Rightarrow> error + ComponentInfo) \<Rightarrow> (string \<rightharpoonup> string) \<Rightarrow> string \<Rightarrow> error + ComponentInfo list" where
  "actionComponents details imports content =
     (let clean = cleanContent content
      in case addRefs details imports (wordRefs clean) ([], {}) of
           Inl e \<Rightarrow> Inl e
         | Inr state \<Rightarrow>
             (case addInline details (inlineActions clean) state of
                Inl e \<Rightarrow> Inl e
              | Inr state' \<Rightarrow> Inr (fst state')))"

text \<open>
  The loop over the patterns: the first pattern whose group is not empty and gives at
  least one component sets \<open>pluginInfo.actions\<close> and ends the loop.
\<close>

fun tryPatterns ::
  "(string \<Rightarrow> error + ComponentInfo) \<Rightarrow> (string \<rightharpoonup> string) \<Rightarrow> string \<Rightarrow> actionPattern list
     \<Rightarrow> error + ComponentInfo list" where
  "tryPatterns details imports indexContent [] = Inr []"
| "tryPatterns details imports indexContent (pattern # patterns) =
     (case firstMatch (arrayMatch pattern) indexContent of
        None \<Rightarrow> tryPatterns details imports indexContent patterns
      | Some content \<Rightarrow>
          if content = [] then tryPatterns details imports indexContent patterns
          else (case actionComponents details imports content of
                  Inl e \<Rightarrow> Inl e
                | Inr components \<Rightarrow>
                    if length components > 0 then Inr components
                    else tryPatterns details imports indexContent patterns))"

text \<open>
  The actions that \<open>extractPluginComponents\<close> takes from the index file; when it finds
  none there, it goes on to look into the directory \<open>src/actions\<close>.
\<close>

definition indexActions :: "(string \<Rightarrow> error + ComponentInfo) \<Rightarrow> string \<Rightarrow> error + ComponentInfo list" where
  "indexActions details indexContent =
     (if indexContent = [] then Inr []
      else tryPatterns details (actionImports indexContent) indexContent actionPatterns)"


text \<open>Index files on which the extraction is run below.\<close>

definition aliasIndex :: string where
  \<open>aliasIndex =
     ''import { transferAction as sendToken } from '' @ SQ @ ''./actions'' @ SQ @ '';'' @ NL @
     ''export const plugin = {'' @ NL @
     ''  name: "token",'' @ NL @
     ''  actions: [sendToken],'' @ NL @
     ''};'' @ NL\<close>

definition exportIndex :: string where
  \<open>exportIndex =
     ''import { transferAction as sendToken } from '' @ SQ @ ''./actions'' @ SQ @ '';'' @ NL @
     ''export const actions = [sendToken];'' @ NL\<close>

definition dotIndex :: string where
  \<open>dotIndex =
     ''import { transferAction as sendToken } from '' @ SQ @ ''./actions'' @ SQ @ '';'' @ NL @
     ''plugin.actions = [sendToken];'' @ NL\<close>

definition twoArraysIndex :: string where
  \<open>twoArraysIndex =
     ''import { transferAction as sendToken } from '' @ SQ @ ''./actions'' @ SQ @ '';'' @ NL @
     ''export const defaults = { actions: [helloAction] };'' @ NL @
     ''export const plugin = { actions: [sendToken] };'' @ NL\<close>

definition clashIndex :: string where
  \<open>clashIndex =
     ''import { sendToken as legacySend, transferAction as sendToken } from '' @ SQ @ ''./actions'' @ SQ @ '';'' @ NL @
     ''export const plugin = { actions: [legacySend, sendToken] };'' @ NL\<close>

text \<open>Details without a source file: only the name of the component is known.\<close>

definition noDetails :: "string \<Rightarrow> error + ComponentInfo" where
  "noDetails componentName =
     Inr \<lparr>ci_name = componentName, ci_sourceCode = None, ci_filePath = None, ci_description = None,
          ci_parameters = None, ci_returnType = None, ci_methods = None, ci_aliases = None,
          ci_usageExample = None, ci_configuration = None\<rparr>"

section \<open>Properties of the scope rename\<close>

lemma replaceString_absent:
  "pat \<noteq> [] \<Longrightarrow> \<not> sublist pat s \<Longrightarrow> replaceString pat repl preceding s = s"
proof (induction s arbitrary: preceding)
  case Nil
  then show ?case by simp
next
  case (Cons c cs)
  from Cons.prems have "\<not> prefix pat (c # cs)" and "\<not> sublist pat cs"
    by (auto simp: sublist_Cons_right)
  with Cons show ?case by simp
qed

lemma sublist_at_head:
  assumes "sublist (a # p) (a # r)" and "a \<notin> set r"
  shows "prefix (a # p) (a # r)"
proof -
  from assms(1) have "prefix (a # p) (a # r) \<or> sublist (a # p) r"
    by (simp add: sublist_Cons_right)
  moreover have "\<not> sublist (a # p) r"
  proof
    assume "sublist (a # p) r"
    then have "set (a # p) \<subseteq> set r" by (rule set_mono_sublist)
    with assms(2) show False by simp
  qed
  ultimately show ?thesis by blast
qed

lemma no_plugins_scope_inside:
  assumes "CHR ''@'' \<notin> set r" and "\<not> prefix ''@elizaos-plugins/'' (CHR ''@'' # r)"
  shows "replaceString ''@elizaos-plugins/'' repl preceding (CHR ''@'' # r) = CHR ''@'' # r"
proof (rule replaceString_absent)
  show "''@elizaos-plugins/'' \<noteq> []" by simp
  show "\<not> sublist ''@elizaos-plugins/'' (CHR ''@'' # r)"
    using assms sublist_at_head [of "CHR ''@''" "''elizaos-plugins/''" r] by blast
qed

lemma normalize_elizaos_fixed:
  assumes "CHR ''@'' \<notin> set rest"
  shows "normalizePackageName (Some (''@elizaos/'' @ rest)) = ''@elizaos/'' @ rest"
proof -
  have a: "CHR ''@'' \<notin> set (''elizaos/'' @ rest)" using assms by simp
  have b: "\<not> prefix ''@elizaos-plugins/'' (CHR ''@'' # (''elizaos/'' @ rest))" by simp
  have "replaceString ''@elizaos-plugins/'' ''@elizaos/'' [] (CHR ''@'' # (''elizaos/'' @ rest))
        = CHR ''@'' # (''elizaos/'' @ rest)"
    using a b by (rule no_plugins_scope_inside)
  then show ?thesis
    by (simp add: normalizePackageName_def replace_def)
qed

lemma isScopedName_shape:
  assumes "isScopedName n"
  obtains r where "n = CHR ''@'' # r" and "CHR ''@'' \<notin> set r"
proof (cases n)
  case Nil
  with assms show ?thesis by (simp add: isScopedName_def)
next
  case (Cons c r)
  let ?scope = "takeWhile (\<lambda>x. x \<noteq> CHR ''/'') r"
  let ?rest = "dropWhile (\<lambda>x. x \<noteq> CHR ''/'') r"
  from assms Cons have c: "c = CHR ''@''" and s: "CHR ''@'' \<notin> set ?scope"
    and t: "case ?rest of [] \<Rightarrow> False | _ # nm \<Rightarrow> nm \<noteq> [] \<and> CHR ''@'' \<notin> set nm \<and> CHR ''/'' \<notin> set nm"
    by (simp_all add: isScopedName_def Let_def)
  from t obtain x nm where rest: "?rest = x # nm" and nm: "CHR ''@'' \<notin> set nm"
    by (cases ?rest) simp_all
  have "x = CHR ''/''"
    using rest hd_dropWhile [of "\<lambda>x. x \<noteq> CHR ''/''" r] by simp
  moreover have "set r = set ?scope \<union> set ?rest"
    using takeWhile_dropWhile_id [of "\<lambda>x. x \<noteq> CHR ''/''" r] set_append [of ?scope ?rest] by simp
  ultimately have "CHR ''@'' \<notin> set r"
    using s nm rest by simp
  with Cons c show ?thesis by (intro that) simp_all
qed

lemma normalize_scoped_cases:
  assumes "isScopedName n"
  shows "normalizePackageName (Some n) = n \<or>
         (\<exists>rest. normalizePackageName (Some n) = ''@elizaos/'' @ rest \<and> CHR ''@'' \<notin> set rest)"
proof -
  from assms obtain r where n: "n = CHR ''@'' # r" and r: "CHR ''@'' \<notin> set r"
    by (rule isScopedName_shape)
  show ?thesis
  proof (cases "prefix ''@elizaos-plugins/'' n")
    case True
    then obtain rest where rest: "n = ''@elizaos-plugins/'' @ rest"
      by (auto simp: prefix_def)
    with n r have "CHR ''@'' \<notin> set rest" by auto
    moreover have "normalizePackageName (Some n) = ''@elizaos/'' @ rest"
      unfolding rest by (simp add: normalizePackageName_def replace_def)
    ultimately show ?thesis by blast
  next
    case False
    with n r have "replaceString ''@elizaos-plugins/'' ''@elizaos/'' [] (CHR ''@'' # r) = CHR ''@'' # r"
      by (intro no_plugins_scope_inside) simp_all
    with n have "normalizePackageName (Some n) = n"
      by (simp add: normalizePackageName_def replace_def)
    then show ?thesis by blast
  qed
qed

text \<open>
  Claim C8. The scope rename leaves a package name that is already scoped \<open>@elizaos/\<close>
  unchanged, and on every scoped package name applying the rename twice gives the same
  result as applying it once.
\<close>

theorem scope_rename_idempotent:
  assumes "isScopedName n"
  shows "(prefix ''@elizaos/'' n \<longrightarrow> normalizePackageName (Some n) = n) \<and>
         normalizePackageName (Some (normalizePackageName (Some n))) = normalizePackageName (Some n)"
proof
  show "prefix ''@elizaos/'' n \<longrightarrow> normalizePackageName (Some n) = n"
  proof
    assume "prefix ''@elizaos/'' n"
    then obtain rest where rest: "n = ''@elizaos/'' @ rest" by (auto simp: prefix_def)
    from assms obtain r where "n = CHR ''@'' # r" and "CHR ''@'' \<notin> set r"
      by (rule isScopedName_shape)
    with rest have "CHR ''@'' \<notin> set rest" by auto
    then have "normalizePackageName (Some (''@elizaos/'' @ rest)) = ''@elizaos/'' @ rest"
      by (rule normalize_elizaos_fixed)
    with rest show "normalizePackageName (Some n) = n" by simp
  qed
next
  from normalize_scoped_cases [OF assms]
  show "normalizePackageName (Some (normalizePackageName (Some n))) = normalizePackageName (Some n)"
  proof
    assume eq: "normalizePackageName (Some n) = n"
    then show ?thesis by simp
  next
    assume "\<exists>rest. normalizePackageName (Some n) = ''@elizaos/'' @ rest \<and> CHR ''@'' \<notin> set rest"
    then obtain rest where a: "normalizePackageName (Some n) = ''@elizaos/'' @ rest"
      and "CHR ''@'' \<notin> set rest" by blast
    then have "normalizePackageName (Some (''@elizaos/'' @ rest)) = ''@elizaos/'' @ rest"
      by (intro normalize_elizaos_fixed)
    with a show ?thesis by simp
  qed
qed

theorem scope_rename_idempotent_witness:
  "isScopedName ''@elizaos/plugin-x'' \<and>
   normalizePackageName (Some ''@elizaos/plugin-x'') = ''@elizaos/plugin-x'' \<and>
   isScopedName ''@elizaos-plugins/plugin-x'' \<and>
   normalizePackageName (Some ''@elizaos-plugins/plugin-x'') = ''@elizaos/plugin-x'' \<and>
   normalizePackageName (Some (normalizePackageName (Some ''@elizaos-plugins/plugin-x'')))
     = ''@elizaos/plugin-x''"
proof -
  have a: "isScopedName ''@elizaos/plugin-x''" by (simp add: isScopedName_def)
  have b: "isScopedName ''@elizaos-plugins/plugin-x''" by (simp add: isScopedName_def)
  have c: "normalizePackageName (Some ''@elizaos-plugins/plugin-x'') = ''@elizaos/plugin-x''"
    by (simp add: normalizePackageName_def replace_def)
  have d: "prefix ''@elizaos/'' ''@elizaos/plugin-x''" by simp
  from scope_rename_idempotent [OF a] d
  have e: "normalizePackageName (Some ''@elizaos/plugin-x'') = ''@elizaos/plugin-x''" by blast
  from scope_rename_idempotent [OF b]
  have f: "normalizePackageName (Some (normalizePackageName (Some ''@elizaos-plugins/plugin-x'')))
     = normalizePackageName (Some ''@elizaos-plugins/plugin-x'')" by blast
  from a b c e f show ?thesis by simp
qed


section \<open>Properties of the download estimate\<close>

lemma sliceLast10_recent:
  assumes "length recent \<le> 10" and "older \<noteq> [] \<longrightarrow> length recent = 10"
  shows "sliceLast10 (older @ recent) = recent"
  using assms by (cases "older = []") (simp_all add: sliceLast10_def)

lemma roundHalfEven_ge:
  assumes "0 < b" and "j * b \<le> a"
  shows "j \<le> roundHalfEven a b"
proof -
  from assms have "j \<le> a div b" by (simp add: less_eq_div_iff_mult_less_eq)
  then show ?thesis by (simp add: roundHalfEven_def Let_def)
qed

lemma roundHalfEven_less:
  assumes "0 < b" and "2 * a + b < 2 * (j * b)"
  shows "roundHalfEven a b < j"
proof -
  define q where "q = a div b"
  define x where "x = q * b"
  define y where "y = j * b"
  have a: "a = x + a mod b" unfolding x_def q_def by simp
  have r: "a mod b < b" using assms(1) by simp
  have ab: "2 * a + b < 2 * y" using assms(2) by (simp add: y_def)
  show ?thesis
  proof (cases "2 * (a mod b) < b")
    case True
    have "x < y" using a ab by linarith
    then have "q < j" unfolding x_def y_def by simp
    with True show ?thesis by (simp add: roundHalfEven_def Let_def q_def)
  next
    case False
    then have "x + b < y" using a ab by linarith
    moreover have "x + b = (q + 1) * b" by (simp add: x_def)
    ultimately have "(q + 1) * b < j * b" by (simp add: y_def)
    then have "q + 1 < j" by (simp only: mult_less_cancel2)
    then show ?thesis by (simp add: roundHalfEven_def Let_def q_def)
  qed
qed

lemma scaleUp_least:
  assumes "0 < d"
  shows "s0 \<le> scaleUp d n s0 \<and> n * 2 ^ 52 \<le> d * 2 ^ scaleUp d n s0"
  using assms
proof (induction d n s0 rule: scaleUp.induct)
  case (1 d n s)
  show ?case
  proof (cases "n * 2 ^ 52 \<le> d * 2 ^ s")
    case True
    then show ?thesis by (simp add: scaleUp.simps [of d n s])
  next
    case False
    with 1 have ih: "s + 1 \<le> scaleUp d n (s + 1) \<and> n * 2 ^ 52 \<le> d * 2 ^ scaleUp d n (s + 1)"
      by simp
    have eq: "scaleUp d n s = scaleUp d n (s + 1)"
      using False 1(2) by (simp add: scaleUp.simps [of d n s])
    from ih show ?thesis unfolding eq by simp
  qed
qed

lemma div_eqI_nat:
  fixes a b k :: nat
  assumes "k * b \<le> a" and "a < (k + 1) * b"
  shows "a div b = k"
  using assms by (intro div_nat_eqI) (simp_all add: mult.commute)

lemma mathRound_numberDiv_nearest:
  assumes n: "0 < n" and d: "d < 2 ^ 52"
  shows "mathRound (numberDiv d n) = (2 * d + n) div (2 * n)"
proof (cases "d = 0")
  case True
  with n show ?thesis by (simp add: numberDiv_def mathRound_def)
next
  case False
  then have dpos: "0 < d" by simp
  define c :: nat where "c = 2 ^ 52"
  define s where "s = scaleUp d n 0"
  define m where "m = roundHalfEven (d * 2 ^ s) n"
  define k where "k = (2 * d + n) div (2 * n)"
  define p :: nat where "p = 2 ^ s"
  have cpos: "0 < c" by (simp add: c_def)
  have dc: "d < c" using d by (simp add: c_def)
  have big: "n * c \<le> d * p"
    using scaleUp_least [OF dpos, of 0 n] by (simp add: s_def c_def p_def)
  have "1 * c \<le> n * c" using n by (intro mult_le_mono1) simp
  then have cn: "c \<le> n * c" by simp
  from dc cn have "d < n * c" by (rule less_le_trans)
  also have "n * c \<le> n * 2 ^ 53" by (simp add: c_def)
  finally have small: "d < n * 2 ^ 53" .
  have ppos: "0 < p" by (simp add: p_def)
  have "d * p < c * p" using dc ppos by simp
  with big have "n * c < c * p" by (rule le_less_trans)
  then have "n * c < p * c" by (simp only: mult.commute [of c p])
  then have np: "n < p" by (simp only: mult_less_cancel2)
  have k1: "k * (2 * n) \<le> 2 * d + n" unfolding k_def by simp
  have "(2 * d + n) mod (2 * n) < 2 * n" using n by simp
  moreover have "2 * n * k + (2 * d + n) mod (2 * n) = 2 * d + n"
    unfolding k_def by (rule mult_div_mod_eq)
  ultimately have k2: "2 * d + n < (k + 1) * (2 * n)" by (simp add: algebra_simps)
  have spos: "s \<noteq> 0"
  proof
    assume "s = 0"
    with big have "n * c \<le> d" by (simp add: p_def)
    with cn dc show False by linarith
  qed
  then obtain s' where s': "s = Suc s'" by (cases s) simp_all
  define h :: nat where "h = 2 ^ s'"
  have ph: "p = 2 * h" by (simp add: p_def h_def s')
  have upper: "m < (2 * k + 1) * h"
    unfolding m_def p_def [symmetric]
  proof (rule roundHalfEven_less [OF n])
    from k2 have "2 * d + 1 \<le> (2 * k + 1) * n" by (simp add: algebra_simps)
    then have "(2 * d + 1) * p \<le> (2 * k + 1) * n * p" by (rule mult_le_mono1)
    then have "2 * (d * p) + p \<le> (2 * k + 1) * n * p" by (simp add: algebra_simps)
    with np have "2 * (d * p) + n < (2 * k + 1) * n * p" by linarith
    also have "(2 * k + 1) * n * p = 2 * ((2 * k + 1) * h * n)" by (simp add: ph algebra_simps)
    finally show "2 * (d * p) + n < 2 * ((2 * k + 1) * h * n)" .
  qed
  have lower: "k * p \<le> m + h"
  proof (cases k)
    case 0
    then show ?thesis by simp
  next
    case (Suc k')
    have "(2 * k' + 1) * h \<le> m"
      unfolding m_def p_def [symmetric]
    proof (rule roundHalfEven_ge [OF n])
      from k1 Suc have "(2 * k' + 1) * n \<le> 2 * d" by (simp add: algebra_simps)
      then have "(2 * k' + 1) * n * h \<le> 2 * d * h" by (rule mult_le_mono1)
      then show "(2 * k' + 1) * h * n \<le> d * p" by (simp add: ph algebra_simps)
    qed
    then show ?thesis by (simp add: Suc ph algebra_simps)
  qed
  have "(2 * m + p) div (2 * p) = k"
  proof (rule div_eqI_nat)
    from lower show "k * (2 * p) \<le> 2 * m + p" by (simp add: ph algebra_simps)
    from upper show "2 * m + p < (k + 1) * (2 * p)" by (simp add: ph algebra_simps)
  qed
  moreover from False small have "numberDiv d n = (m, p)"
    by (simp add: numberDiv_def Let_def s_def m_def p_def)
  ultimately show ?thesis
    by (simp add: mathRound_def k_def)
qed

lemma versions_split:
  assumes "vs \<noteq> []"
  shows "\<exists>older recent. vs = older @ recent \<and> recent \<noteq> [] \<and> length recent \<le> 10 \<and>
           (older \<noteq> [] \<longrightarrow> length recent = 10)"
proof -
  have "vs = take (length vs - 10) vs @ drop (length vs - 10) vs" by simp
  moreover have "length vs - 10 < length vs" using assms by (cases vs) simp_all
  then have "drop (length vs - 10) vs \<noteq> []" by simp
  moreover have "length (drop (length vs - 10) vs) \<le> 10" by simp
  moreover have "take (length vs - 10) vs \<noteq> [] \<longrightarrow> length (drop (length vs - 10) vs) = 10"
    by auto
  ultimately show ?thesis by blast
qed

lemma map_constant: "\<forall>x \<in> set xs. f x = v \<Longrightarrow> map f xs = replicate (length xs) v"
  by (induction xs) simp_all

lemma map_pair_zip: "map (\<lambda>x. (f x, g x)) xs = zip (map f xs) (map g xs)"
  by (induction xs) simp_all

lemma fetchVersionDownloads_append:
  "fetchVersionDownloads api (earlier @ later)
     = fetchVersionDownloads api earlier @ fetchVersionDownloads api later"
  by (induction earlier) simp_all

lemma large_total_rounding:
  "mathRound (numberDiv 6755399441055745 3) = 2251799813685249"
  by (simp add: numberDiv_def mathRound_def roundHalfEven_def scaleUp.simps Let_def)

text \<open>
  Claim C7. Let the versions of a package be \<open>older @ recent\<close>, where \<open>recent\<close> holds the
  last ten versions, or all of them when there are at most ten, and let the monthly
  total \<open>d\<close> of the package have been fetched. Then the script emits, at the package's
  place in the output, one record for each version of \<open>recent\<close>, in order, and every
  record carries the same estimate: the rounded quotient of \<open>d\<close> by the number \<open>k\<close> of
  versions in \<open>recent\<close>. For a total below \<open>2 ^ 52\<close> the division of double precision
  does not disturb the rounding, and the estimate \<open>v\<close> is the integer nearest to \<open>d / k\<close>:
  \<open>v - 1/2 \<le> d / k < v + 1/2\<close>.
\<close>

theorem version_downloads_even_split:
  assumes "pkg_versions pkg = older @ recent"
    and "recent \<noteq> []"
    and "length recent \<le> 10"
    and "older \<noteq> [] \<longrightarrow> length recent = 10"
    and "getDownloadStats (api (pkg_name pkg)) = Inr d"
  shows "let rs = versionDownloadsOf api pkg; k = length recent; v = mathRound (numberDiv d k)
         in fetchVersionDownloads api (earlier @ pkg # later)
              = fetchVersionDownloads api earlier @ rs @ fetchVersionDownloads api later \<and>
            0 < k \<and> k \<le> 10 \<and>
            map vd_version rs = recent \<and>
            (\<forall>r \<in> set rs. vd_packageName r = pkg_name pkg \<and> vd_downloads r = v) \<and>
            (d < 2 ^ 52 \<longrightarrow> 2 * d < 2 * k * v + k \<and> 2 * k * v \<le> 2 * d + k)"
proof -
  let ?k = "length recent"
  let ?v = "mathRound (numberDiv d ?k)"
  have k: "0 < ?k" using assms(2) by simp
  have slice: "sliceLast10 (pkg_versions pkg) = recent"
    unfolding assms(1) using assms(3,4) by (rule sliceLast10_recent)
  have rs: "versionDownloadsOf api pkg =
      map (\<lambda>version. \<lparr>vd_packageName = pkg_name pkg, vd_version = version,
                       vd_downloads = ?v, vd_downloadsPeriod = ''last-month''\<rparr>) recent"
    using assms(5) by (simp add: versionDownloadsOf_def Let_def slice)
  have vs: "map vd_version (versionDownloadsOf api pkg) = recent"
    unfolding rs by (simp add: comp_def)
  have each: "\<forall>r \<in> set (versionDownloadsOf api pkg).
      vd_packageName r = pkg_name pkg \<and> vd_downloads r = ?v"
    unfolding rs by auto
  have whole: "fetchVersionDownloads api (earlier @ pkg # later)
      = fetchVersionDownloads api earlier @ versionDownloadsOf api pkg @ fetchVersionDownloads api later"
    by (simp add: fetchVersionDownloads_append)
  have near: "d < 2 ^ 52 \<longrightarrow> 2 * d < 2 * ?k * ?v + ?k \<and> 2 * ?k * ?v \<le> 2 * d + ?k"
  proof
    assume "d < 2 ^ 52"
    with k have v: "?v = (2 * d + ?k) div (2 * ?k)" by (rule mathRound_numberDiv_nearest)
    have pos: "0 < 2 * ?k" using k by simp
    have "(2 * d + ?k) mod (2 * ?k) < 2 * ?k" using pos by (rule mod_less_divisor)
    moreover have "2 * ?k * ((2 * d + ?k) div (2 * ?k)) + (2 * d + ?k) mod (2 * ?k) = 2 * d + ?k"
      by (rule mult_div_mod_eq)
    ultimately show "2 * d < 2 * ?k * ?v + ?k \<and> 2 * ?k * ?v \<le> 2 * d + ?k"
      unfolding v by linarith
  qed
  from k assms(3) vs each whole near show ?thesis
    unfolding Let_def by blast
qed

theorem version_downloads_even_split_witness:
  "map (\<lambda>r. (vd_version r, vd_downloads r))
     (fetchVersionDownloads (\<lambda>n. if n = ''@elizaos/core'' then Body (Some 1005) else Status 500)
        [\<lparr>pkg_name = ''@elizaos/core'',
          pkg_versions = [''0.1'', ''0.2'', ''1.0'', ''1.1'', ''1.2'', ''1.3'', ''1.4'', ''1.5'',
                          ''1.6'', ''1.7'', ''1.8'', ''1.9'']\<rparr>,
         \<lparr>pkg_name = ''@elizaos/x'', pkg_versions = [''0.1.0'']\<rparr>])
   = [(''1.0'', 101), (''1.1'', 101), (''1.2'', 101), (''1.3'', 101), (''1.4'', 101),
      (''1.5'', 101), (''1.6'', 101), (''1.7'', 101), (''1.8'', 101), (''1.9'', 101)]"
proof -
  let ?api = "\<lambda>n. if n = ''@elizaos/core'' then Body (Some 1005) else Status 500"
  let ?older = "[''0.1'', ''0.2'']"
  let ?recent = "[''1.0'', ''1.1'', ''1.2'', ''1.3'', ''1.4'', ''1.5'', ''1.6'', ''1.7'', ''1.8'', ''1.9'']"
  let ?pkg = "\<lparr>pkg_name = ''@elizaos/core'', pkg_versions = ?older @ ?recent\<rparr>"
  let ?x = "\<lparr>pkg_name = ''@elizaos/x'', pkg_versions = [''0.1.0'']\<rparr>"
  let ?rs = "versionDownloadsOf ?api ?pkg"
  let ?v = "mathRound (numberDiv 1005 (length ?recent))"
  have a: "pkg_versions ?pkg = ?older @ ?recent" by simp
  have b: "getDownloadStats (?api (pkg_name ?pkg)) = Inr 1005" by simp
  have c: "fetchVersionDownloads ?api [?x] = []" by (simp add: versionDownloadsOf_def)
  have r1: "?recent \<noteq> []" by simp
  have len: "length ?recent = 10" by simp
  have r2: "length ?recent \<le> 10" by simp
  have r3: "?older \<noteq> [] \<longrightarrow> length ?recent = 10" by simp
  have bound: "(1005::nat) < 2 ^ 52" by simp
  define v where "v = mathRound (numberDiv 1005 (length ?recent))"
  note split = version_downloads_even_split [where pkg = ?pkg and api = ?api and d = 1005
      and older = ?older and recent = ?recent and earlier = "[]" and later = "[?x]",
      OF a r1 r2 r3 b, unfolded Let_def, folded v_def]
  from split have whole:
    "fetchVersionDownloads ?api ([] @ ?pkg # [?x])
       = fetchVersionDownloads ?api [] @ ?rs @ fetchVersionDownloads ?api [?x]"
    by (rule conjunct1)
  from split have vs: "map vd_version ?rs = ?recent" by blast
  from split have each: "\<forall>r \<in> set ?rs. vd_downloads r = v" by blast
  from split bound have "2 * 1005 < 2 * length ?recent * v + length ?recent \<and>
      2 * length ?recent * v \<le> 2 * 1005 + length ?recent" by blast
  then have v: "v = 101" unfolding len by arith
  have "length (map vd_version ?rs) = 10" unfolding vs by (rule len)
  then have n: "length ?rs = 10" by simp
  from each have "map vd_downloads ?rs = replicate (length ?rs) v"
    by (rule map_constant)
  then have ds: "map vd_downloads ?rs = replicate 10 101" unfolding n v .
  have "map (\<lambda>r. (vd_version r, vd_downloads r)) ?rs = zip (map vd_version ?rs) (map vd_downloads ?rs)"
    by (rule map_pair_zip)
  then have "map (\<lambda>r. (vd_version r, vd_downloads r)) ?rs = zip ?recent (replicate 10 101)"
    unfolding vs ds .
  moreover have "fetchVersionDownloads ?api [?pkg, ?x] = ?rs"
    using whole c by simp
  ultimately show ?thesis by (simp add: numeral_eq_Suc)
qed

section \<open>Properties of the README generation\<close>






lemma sublist_mid: "sublist v (a @ v @ b)"
  by (rule sublist_appendI)

text \<open>
  Claim C5. A response whose content is absent, empty or, once trimmed, shorter than 500
  characters is never returned by \<open>generateReadmeWithAI\<close>: the result is that of the
  template substitution, the same as when the completion call throws.
\<close>

theorem short_response_rejected:
  assumes "case content of None \<Rightarrow> True | Some c \<Rightarrow> length (trim c) < 500"
  shows "generateReadmeWithAI templateFile (Inr content) pluginInfo existingReadme
           = generateReadmeFromTemplate templateFile pluginInfo existingReadme \<and>
         generateReadmeWithAI templateFile (Inr content) pluginInfo existingReadme
           = generateReadmeWithAI templateFile (Inl e) pluginInfo existingReadme"
  using assms
  by (cases templateFile; cases content) (simp_all add: generateReadmeWithAI_def Let_def)

theorem short_response_rejected_witness:
  "generateReadmeWithAI (Inr ''# {{PLUGIN_NAME}}'') (Inr (Some ''   Too short.  '')) examplePlugin None
     = Inr ''# @elizaos/plugin-x'' \<and>
   generateReadmeWithAI (Inr ''# {{PLUGIN_NAME}}'') (Inr None) examplePlugin None
     = Inr ''# @elizaos/plugin-x''"
proof -
  have a: "case Some ''   Too short.  '' of None \<Rightarrow> True | Some c \<Rightarrow> length (trim c) < 500"
    by (simp add: trim_def isSpace_def)
  have b: "case (None :: string option) of None \<Rightarrow> True | Some c \<Rightarrow> length (trim c) < 500"
    by simp
  have c: "generateReadmeFromTemplate (Inr ''# {{PLUGIN_NAME}}'') examplePlugin None
             = Inr ''# @elizaos/plugin-x''"
    by (simp add: generateReadmeFromTemplate_def fillTemplate_def replaceAll_def examplePlugin_def)
  from short_response_rejected [OF a] short_response_rejected [OF b] c
  show ?thesis by simp
qed









































section \<open>Properties of the processing of one repository\<close>

lemma runSteps_events: "set (snd (runSteps steps)) \<subseteq> fst ` set steps"
  by (induction steps rule: runSteps.induct) (auto split: prod.splits)

lemma suffix_sublist_extended:
  assumes "suffix a dir"
  shows "sublist (a @ b) (dir @ b)"
proof -
  from assms obtain x where "dir = x @ a" by (auto simp: suffix_def)
  then have "dir @ b = x @ (a @ b) @ []" by simp
  then show ?thesis unfolding sublist_def by blast
qed

lemma splitFrom_free:
  "CHR ''/'' \<notin> set s \<Longrightarrow> splitFrom ''/'' piece s = [piece @ s]"
  by (induction s arbitrary: piece) simp_all

lemma splitFrom_slash:
  "CHR ''/'' \<notin> set s \<Longrightarrow>
   splitFrom ''/'' piece (s @ CHR ''/'' # t) = (piece @ s) # splitFrom ''/'' [] t"
  by (induction s arbitrary: piece) simp_all

lemma splitString_join:
  assumes "\<forall>x \<in> set segs. CHR ''/'' \<notin> set x" and "segs \<noteq> []"
  shows "splitString (join ''/'' segs) ''/'' = segs"
  using assms
proof (induction segs)
  case Nil
  then show ?case by simp
next
  case (Cons x xs)
  show ?case
  proof (cases xs)
    case Nil
    with Cons.prems show ?thesis by (simp add: splitString_def splitFrom_free)
  next
    case (Cons y ys)
    with Cons.IH Cons.prems have "splitFrom ''/'' [] (join ''/'' (y # ys)) = y # ys"
      by (simp add: splitString_def)
    with Cons Cons.prems show ?thesis
      by (simp add: splitString_def splitFrom_slash)
  qed
qed

lemma join_append:
  "xs \<noteq> [] \<Longrightarrow> ys \<noteq> [] \<Longrightarrow> join sep (xs @ ys) = join sep xs @ sep @ join sep ys"
proof (induction sep xs rule: join.induct)
  case (1 sep)
  then show ?case by simp
next
  case (2 sep x)
  then show ?case by (cases ys) simp_all
next
  case (3 sep x y ys')
  then show ?case by simp
qed

lemma last_join:
  "segs \<noteq> [] \<Longrightarrow> last segs \<noteq> [] \<Longrightarrow> join sep segs \<noteq> [] \<and> last (join sep segs) = last (last segs)"
  by (induction sep segs rule: join.induct) simp_all

lemma join_empty:
  "\<forall>x \<in> set segs. x \<noteq> [] \<Longrightarrow> join sep segs = [] \<Longrightarrow> segs = []"
  by (induction sep segs rule: join.induct) simp_all

lemma normalizeSegments_names:
  "\<forall>x \<in> set names. isName x \<Longrightarrow>
   normalizeSegments a res (names @ rest) = normalizeSegments a (rev names @ res) rest"
  by (induction names arbitrary: res) (simp_all add: isName_def)

lemma normalize_absolute:
  assumes free: "\<forall>x \<in> set segs. CHR ''/'' \<notin> set x"
    and ne: "segs \<noteq> []" and la: "last segs \<noteq> []"
  shows "normalize (join ''/'' ([] # segs))
           = CHR ''/'' # join ''/'' (rev (normalizeSegments False [] segs))"
proof -
  obtain y ys where segs: "segs = y # ys" using ne by (cases segs) auto
  have p: "join ''/'' ([] # segs) = CHR ''/'' # join ''/'' segs" by (simp add: segs)
  from last_join [OF ne la] have j: "join ''/'' segs \<noteq> []"
    and l: "last (join ''/'' segs) = last (last segs)" by simp_all
  from la have "last (last segs) \<in> set (last segs)" by simp
  moreover have "last segs \<in> set segs" using ne by simp
  ultimately have "last (last segs) \<noteq> CHR ''/''" using free by auto
  with l j have nt: "last (CHR ''/'' # join ''/'' segs) \<noteq> CHR ''/''" by simp
  have "\<forall>x \<in> set ([] # segs). CHR ''/'' \<notin> set x" using free by simp
  then have sp: "splitString (join ''/'' ([] # segs)) ''/'' = [] # segs"
    by (rule splitString_join) simp
  show ?thesis
    unfolding normalize_def sp [unfolded p] p using nt
    by (simp add: Let_def)
qed

lemma absolutePath_join: "absolutePath segs = join ''/'' ([] # rootSegs segs)"
  by (cases segs) (simp_all add: absolutePath_def rootSegs_def)

lemma normalizeSegments_root:
  assumes "\<forall>x \<in> set segs. isName x"
  shows "normalizeSegments False [] (rootSegs segs @ rest) = normalizeSegments False (rev segs) rest"
proof (cases "segs = []")
  case True
  then show ?thesis by (simp add: rootSegs_def)
next
  case False
  with normalizeSegments_names [OF assms, of False "[]" rest] show ?thesis
    by (simp add: rootSegs_def)
qed

lemma pathJoin_absolute:
  assumes names: "\<forall>x \<in> set segs. isName x"
    and free: "\<forall>x \<in> set parts. x \<noteq> [] \<and> CHR ''/'' \<notin> set x"
    and parts: "parts \<noteq> []"
  shows "pathJoin (absolutePath segs # parts)
           = CHR ''/'' # join ''/'' (rev (normalizeSegments False (rev segs) parts))"
proof -
  have f: "filter (\<lambda>part. part \<noteq> []) (absolutePath segs # parts) = absolutePath segs # parts"
    using free by (simp add: absolutePath_def filter_id_conv)
  have "join ''/'' ([absolutePath segs] @ parts) = join ''/'' [absolutePath segs] @ ''/'' @ join ''/'' parts"
    using parts by (intro join_append) simp_all
  moreover have "join ''/'' (([] # rootSegs segs) @ parts)
      = join ''/'' ([] # rootSegs segs) @ ''/'' @ join ''/'' parts"
    using parts by (intro join_append) simp_all
  ultimately have j: "join ''/'' (absolutePath segs # parts) = join ''/'' ([] # rootSegs segs @ parts)"
    by (simp add: absolutePath_join)
  obtain y ys where "rootSegs segs @ parts = y # ys"
    using parts by (cases "rootSegs segs @ parts") simp_all
  then have ne: "join ''/'' ([] # rootSegs segs @ parts) \<noteq> []" by simp
  have sfree: "\<forall>x \<in> set (rootSegs segs @ parts). CHR ''/'' \<notin> set x"
    using names free by (auto simp: rootSegs_def isName_def)
  have sne: "rootSegs segs @ parts \<noteq> []" by (simp add: rootSegs_def)
  have "last parts \<in> set parts" using parts by simp
  with free parts have sla: "last (rootSegs segs @ parts) \<noteq> []" by auto
  have "pathJoin (absolutePath segs # parts) = normalize (join ''/'' ([] # rootSegs segs @ parts))"
    unfolding pathJoin_def f j using ne by (simp add: Let_def)
  also have "\<dots> = CHR ''/'' # join ''/'' (rev (normalizeSegments False [] (rootSegs segs @ parts)))"
    using sfree sne sla by (rule normalize_absolute)
  also have "normalizeSegments False [] (rootSegs segs @ parts) = normalizeSegments False (rev segs) parts"
    using names by (rule normalizeSegments_root)
  finally show ?thesis .
qed

lemma pathJoin_down:
  assumes "\<forall>x \<in> set segs. isName x" and "\<forall>x \<in> set names. isName x" and "names \<noteq> []"
  shows "pathJoin (absolutePath segs # names) = absolutePath (segs @ names)"
proof -
  have "\<forall>x \<in> set names. x \<noteq> [] \<and> CHR ''/'' \<notin> set x" using assms(2) by (simp add: isName_def)
  with assms(1) have "pathJoin (absolutePath segs # names)
      = CHR ''/'' # join ''/'' (rev (normalizeSegments False (rev segs) names))"
    using assms(3) by (rule pathJoin_absolute)
  also have "normalizeSegments False (rev segs) names = rev names @ rev segs"
    using normalizeSegments_names [OF assms(2), of False "rev segs" "[]"] by simp
  finally show ?thesis by (simp add: absolutePath_def)
qed

lemma pathJoin_up:
  assumes "\<forall>x \<in> set segs. isName x" and "isName name"
  shows "pathJoin [absolutePath segs, ''..'', name] = absolutePath (butlast segs @ [name])"
proof -
  have "\<forall>x \<in> set [''..'', name]. x \<noteq> [] \<and> CHR ''/'' \<notin> set x"
    using assms(2) by (simp add: isName_def)
  with assms(1) have "pathJoin (absolutePath segs # [''..'', name])
      = CHR ''/'' # join ''/'' (rev (normalizeSegments False (rev segs) [''..'', name]))"
    by (rule pathJoin_absolute) simp
  also have "normalizeSegments False (rev segs) [''..'', name] = name # rev (butlast segs)"
  proof (cases segs rule: rev_cases)
    case Nil
    with assms(2) show ?thesis by (simp add: isName_def)
  next
    case (snoc others lastSeg)
    with assms(1) have "lastSeg \<noteq> ''..''" by (auto simp: isName_def)
    with snoc assms(2) show ?thesis by (simp add: isName_def)
  qed
  finally show ?thesis by (simp add: absolutePath_def)
qed

lemma absolutePath_inject:
  assumes "\<forall>x \<in> set xs. isName x" and "\<forall>x \<in> set ys. isName x"
    and "absolutePath xs = absolutePath ys"
  shows "xs = ys"
proof -
  from assms(3) have j: "join ''/'' xs = join ''/'' ys" by (simp add: absolutePath_def)
  have nx: "\<forall>x \<in> set xs. x \<noteq> []" and ny: "\<forall>x \<in> set ys. x \<noteq> []"
    using assms(1,2) by (simp_all add: isName_def)
  have fx: "\<forall>x \<in> set xs. CHR ''/'' \<notin> set x" and fy: "\<forall>x \<in> set ys. CHR ''/'' \<notin> set x"
    using assms(1,2) by (simp_all add: isName_def)
  show ?thesis
  proof (cases "xs = []")
    case True
    with j have "join ''/'' ys = []" by simp
    with ny have "ys = []" by (rule join_empty)
    with True show ?thesis by simp
  next
    case False
    have "ys \<noteq> []"
    proof
      assume "ys = []"
      with j have "join ''/'' xs = []" by simp
      with nx have "xs = []" by (rule join_empty)
      with False show False by simp
    qed
    then have "splitString (join ''/'' ys) ''/'' = ys" by (rule splitString_join [OF fy])
    moreover have "splitString (join ''/'' xs) ''/'' = xs" by (rule splitString_join [OF fx False])
    ultimately show ?thesis unfolding j by (rule trans [OF sym, rotated])
  qed
qed

lemma absolutePath_snoc:
  "segs \<noteq> [] \<Longrightarrow> absolutePath (segs @ [name]) = absolutePath segs @ ''/'' @ name"
  by (simp add: absolutePath_def join_append)

lemma getLocalPlugins_names:
  "getLocalPlugins env stat items = Inr plugins \<Longrightarrow>
   set plugins \<subseteq> {item \<in> set items. prefix ''plugin-'' item}"
proof (induction items arbitrary: plugins)
  case Nil
  then show ?case by simp
next
  case (Cons item items)
  show ?case
  proof (cases "prefix ''plugin-'' item")
    case False
    with Cons show ?thesis by auto
  next
    case True
    with Cons.prems obtain isDirectory rest where
      rest: "getLocalPlugins env stat items = Inr rest" and
      plugins: "plugins = (if isDirectory then item # rest else rest)"
      by (auto split: sum.splits)
    from Cons.IH [OF rest] have "set rest \<subseteq> {item \<in> set items. prefix ''plugin-'' item}" .
    with plugins True show ?thesis by auto
  qed
qed

lemma isName_readme: "isName ''README.md''"
  by (simp add: isName_def)

lemma createPullRequest_local_events:
  assumes "LOCAL_MODE env"
  shows "snd (createPullRequest env repoName readme) = [] \<or>
         (\<not> sublist ''plugins-automation/README.md'' (pathJoin [localPluginPath env repoName, ''README.md'']) \<and>
          snd (createPullRequest env repoName readme)
            = [WriteFile (pathJoin [localPluginPath env repoName, ''README.md'']) readme])"
  using assms by (cases "writeFile env (pathJoin [localPluginPath env repoName, ''README.md'']) readme")
    (simp_all add: createPullRequest_def Let_def)

lemma safety_check_fires:
  assumes "LOCAL_MODE env"
    and "sublist ''plugins-automation/README.md'' (pathJoin [localPluginPath env repoName, ''README.md''])"
  shows "\<exists>e. createPullRequest env repoName readme = (Inl e, [])"
  using assms by (simp add: createPullRequest_def Let_def)

lemma local_destination:
  assumes cwd: "cwd env = absolutePath segs"
    and segs: "\<forall>seg \<in> set segs. isName seg"
    and name: "isName repoName"
  shows "pathJoin [cwd env, ''README.md''] = absolutePath (segs @ [''README.md''])"
    and "pathJoin [localPluginPath env repoName, ''README.md''] =
           (if suffix ''plugins-automation'' (cwd env)
            then absolutePath (butlast segs @ [repoName, ''README.md''])
            else absolutePath (segs @ [repoName, ''README.md'']))"
proof -
  have r: "\<forall>x \<in> set [''README.md'']. isName x" using isName_readme by simp
  show "pathJoin [cwd env, ''README.md''] = absolutePath (segs @ [''README.md''])"
    unfolding cwd using segs r by (rule pathJoin_down) simp
  have up: "pathJoin [absolutePath segs, ''..'', repoName] = absolutePath (butlast segs @ [repoName])"
    using segs name by (rule pathJoin_up)
  have "\<forall>x \<in> set [repoName]. isName x" using name by simp
  with segs have down: "pathJoin [absolutePath segs, repoName] = absolutePath (segs @ [repoName])"
    by (rule pathJoin_down) simp
  have b: "\<forall>seg \<in> set (butlast segs @ [repoName]). isName seg"
    using segs name by (auto dest: in_set_butlastD)
  have s: "\<forall>seg \<in> set (segs @ [repoName]). isName seg"
    using segs name by auto
  have "pathJoin [absolutePath (butlast segs @ [repoName]), ''README.md'']
      = absolutePath ((butlast segs @ [repoName]) @ [''README.md''])"
    using b r by (rule pathJoin_down) simp
  moreover have "pathJoin [absolutePath (segs @ [repoName]), ''README.md'']
      = absolutePath ((segs @ [repoName]) @ [''README.md''])"
    using s r by (rule pathJoin_down) simp
  ultimately show "pathJoin [localPluginPath env repoName, ''README.md''] =
           (if suffix ''plugins-automation'' (cwd env)
            then absolutePath (butlast segs @ [repoName, ''README.md''])
            else absolutePath (segs @ [repoName, ''README.md'']))"
    by (simp add: localPluginPath_def Let_def cwd up down)
qed

text \<open>
  Claim C6. In local mode the items that \<open>main\<close> passes on are the names that
  \<open>getLocalPlugins\<close> returns. For every such name, when the destination that
  \<open>createPullRequest\<close> resolves is the \<open>README.md\<close> of the directory the script runs in,
  the automation repository, \<open>createPullRequest\<close> throws and no call that writes has
  been made; and whatever the name, no call of \<open>fs.writeFile\<close> has that file as its
  target.
\<close>

theorem own_readme_refused:
  assumes "LOCAL_MODE env"
    and "cwd env = absolutePath segs"
    and "\<forall>seg \<in> set segs. isName seg"
    and "\<forall>item \<in> set items. isName item"
    and "getLocalPlugins env stat items = Inr plugins"
    and "repoName \<in> set plugins"
  shows "(pathJoin [localPluginPath env repoName, ''README.md''] = pathJoin [cwd env, ''README.md'']
            \<longrightarrow> (\<exists>e. createPullRequest env repoName readme = (Inl e, []))) \<and>
         (\<forall>d. WriteFile (pathJoin [cwd env, ''README.md'']) d
                 \<notin> set (snd (createPullRequest env repoName readme)))"
proof -
  let ?dest = "pathJoin [localPluginPath env repoName, ''README.md'']"
  let ?own = "pathJoin [cwd env, ''README.md'']"
  from getLocalPlugins_names [OF assms(5)] assms(6) have "repoName \<in> set items" by auto
  with assms(4) have name: "isName repoName" by simp
  note own = local_destination(1) [OF assms(2,3) name]
  note dest = local_destination(2) [OF assms(2,3) name]
  have names_own: "\<forall>x \<in> set (segs @ [''README.md'']). isName x"
    using assms(3) isName_readme by simp
  have fires: "sublist ''plugins-automation/README.md'' ?dest" if eq: "?dest = ?own"
  proof (cases "suffix ''plugins-automation'' (cwd env)")
    case True
    have "\<forall>x \<in> set (butlast segs @ [repoName, ''README.md'']). isName x"
      using assms(3) name isName_readme by (auto dest: in_set_butlastD)
    moreover from eq True have "absolutePath (butlast segs @ [repoName, ''README.md''])
        = absolutePath (segs @ [''README.md''])" by (simp add: own dest)
    ultimately have "butlast segs @ [repoName, ''README.md''] = segs @ [''README.md'']"
      by (rule absolutePath_inject [OF _ names_own])
    then have "segs \<noteq> []" by auto
    then have "absolutePath (segs @ [''README.md'']) = absolutePath segs @ ''/'' @ ''README.md''"
      by (rule absolutePath_snoc)
    with own assms(2) have "?own = cwd env @ ''/'' @ ''README.md''" by simp
    moreover from True have "sublist (''plugins-automation'' @ ''/README.md'') (cwd env @ ''/README.md'')"
      by (rule suffix_sublist_extended)
    ultimately show ?thesis using eq by simp
  next
    case False
    have "\<forall>x \<in> set (segs @ [repoName, ''README.md'']). isName x"
      using assms(3) name isName_readme by auto
    moreover from eq False have "absolutePath (segs @ [repoName, ''README.md''])
        = absolutePath (segs @ [''README.md''])" by (simp add: own dest)
    ultimately have "segs @ [repoName, ''README.md''] = segs @ [''README.md'']"
      by (rule absolutePath_inject [OF _ names_own])
    then show ?thesis by simp
  qed
  have refused: "?dest = ?own \<longrightarrow> (\<exists>e. createPullRequest env repoName readme = (Inl e, []))"
  proof
    assume "?dest = ?own"
    then have "sublist ''plugins-automation/README.md'' ?dest" by (rule fires)
    with assms(1) show "\<exists>e. createPullRequest env repoName readme = (Inl e, [])"
      by (rule safety_check_fires)
  qed
  have never: "\<forall>d. WriteFile ?own d \<notin> set (snd (createPullRequest env repoName readme))"
  proof
    fix d
    from createPullRequest_local_events [OF assms(1), of repoName readme]
    show "WriteFile ?own d \<notin> set (snd (createPullRequest env repoName readme))"
    proof
      assume "snd (createPullRequest env repoName readme) = []"
      then show ?thesis by simp
    next
      assume w: "\<not> sublist ''plugins-automation/README.md'' ?dest \<and>
          snd (createPullRequest env repoName readme) = [WriteFile ?dest readme]"
      with fires have "?dest \<noteq> ?own" by blast
      with w show ?thesis by simp
    qed
  qed
  from refused never show ?thesis by (rule conjI)
qed

theorem own_readme_refused_witness:
  "LOCAL_MODE (localEnv ''/work/plugin-plugins-automation'' blankFiles) \<and>
   cwd (localEnv ''/work/plugin-plugins-automation'' blankFiles)
     = absolutePath [''work'', ''plugin-plugins-automation''] \<and>
   getLocalPlugins (localEnv ''/work/plugin-plugins-automation'' blankFiles) (\<lambda>p. Inr True)
     [''plugin-plugins-automation'', ''plugin-x'', ''notes.txt'']
     = Inr [''plugin-plugins-automation'', ''plugin-x''] \<and>
   pathJoin [localPluginPath (localEnv ''/work/plugin-plugins-automation'' blankFiles)
               ''plugin-plugins-automation'', ''README.md'']
     = pathJoin [cwd (localEnv ''/work/plugin-plugins-automation'' blankFiles), ''README.md''] \<and>
   (\<exists>e. createPullRequest (localEnv ''/work/plugin-plugins-automation'' blankFiles)
          ''plugin-plugins-automation'' ''# Plugin'' = (Inl e, [])) \<and>
   WriteFile ''/work/plugin-plugins-automation/README.md'' ''# Plugin''
     \<notin> set (snd (createPullRequest (localEnv ''/work/plugin-plugins-automation'' blankFiles)
                    ''plugin-x'' ''# Plugin''))"
proof -
  let ?env = "localEnv ''/work/plugin-plugins-automation'' blankFiles"
  let ?items = "[''plugin-plugins-automation'', ''plugin-x'', ''notes.txt'']"
  let ?plugins = "[''plugin-plugins-automation'', ''plugin-x'']"
  have a: "LOCAL_MODE ?env" by (simp add: localEnv_def)
  have b: "cwd ?env = absolutePath [''work'', ''plugin-plugins-automation'']" by code_simp
  have c: "\<forall>seg \<in> set [''work'', ''plugin-plugins-automation'']. isName seg" by code_simp
  have d: "\<forall>item \<in> set ?items. isName item" by code_simp
  have e: "getLocalPlugins ?env (\<lambda>p. Inr True) ?items = Inr ?plugins" by code_simp
  have f: "''plugin-plugins-automation'' \<in> set ?plugins" by simp
  have g: "''plugin-x'' \<in> set ?plugins" by simp
  have h: "pathJoin [localPluginPath ?env ''plugin-plugins-automation'', ''README.md'']
     = pathJoin [cwd ?env, ''README.md'']" by code_simp
  have i: "pathJoin [cwd ?env, ''README.md''] = ''/work/plugin-plugins-automation/README.md''"
    by code_simp
  from own_readme_refused [OF a b c d e f, of "''# Plugin''"] h
  have "\<exists>e. createPullRequest ?env ''plugin-plugins-automation'' ''# Plugin'' = (Inl e, [])"
    by (rule conjunct1 [THEN mp])
  moreover from own_readme_refused [OF a b c d e g, of "''# Plugin''"]
  have "WriteFile ''/work/plugin-plugins-automation/README.md'' ''# Plugin''
     \<notin> set (snd (createPullRequest ?env ''plugin-x'' ''# Plugin''))"
    unfolding i by (rule conjunct2 [THEN spec])
  ultimately show ?thesis using a b e h by (intro conjI)
qed

lemma createPullRequest_writes:
  assumes "WriteFile p d \<in> set (snd (createPullRequest env repoName readme))"
  shows "d = readme"
proof (cases "LOCAL_MODE env")
  case True
  show ?thesis
  proof (cases "\<not> pathExists env (localPluginPath env repoName) \<or>
      sublist ''plugins-automation/README.md'' (pathJoin [localPluginPath env repoName, ''README.md''])")
    case True
    with \<open>LOCAL_MODE env\<close> assms show ?thesis
      by (auto simp: createPullRequest_def Let_def split: if_splits)
  next
    case False
    with \<open>LOCAL_MODE env\<close> have "createPullRequest env repoName readme =
        runSteps [(WriteFile (pathJoin [localPluginPath env repoName, ''README.md'']) readme,
                   writeFile env (pathJoin [localPluginPath env repoName, ''README.md'']) readme)]"
      by (simp add: createPullRequest_def Let_def)
    with assms runSteps_events show ?thesis by fastforce
  qed
next
  case False
  show ?thesis
  proof (cases "octokit env")
    case False
    with \<open>\<not> LOCAL_MODE env\<close> assms show ?thesis
      by (simp add: createPullRequest_def)
  next
    case True
    with \<open>\<not> LOCAL_MODE env\<close> obtain steps where
      run: "createPullRequest env repoName readme = runSteps steps" and
      steps: "\<forall>p d. WriteFile p d \<in> fst ` set steps \<longrightarrow> d = readme"
      by (simp add: createPullRequest_def Let_def)
    from assms run runSteps_events have "WriteFile p d \<in> fst ` set steps" by fastforce
    with steps show ?thesis by blast
  qed
qed

lemma snd_returning: "snd (returning x r) = snd r"
  by (simp add: returning_def split: sum.splits)

lemma cloneRepository_no_write:
  "WriteFile p d \<notin> set (snd (cloneRepository env repoNameOrUrl))"
proof (cases "resolveRepoName repoNameOrUrl")
  case (Inl e)
  then show ?thesis by (simp add: cloneRepository_def)
next
  case (Inr repoName)
  then obtain steps where
    run: "snd (cloneRepository env repoNameOrUrl) = snd (runSteps steps)" and
    steps: "WriteFile p d \<notin> fst ` set steps"
    by (simp add: cloneRepository_def Let_def snd_returning)
  with runSteps_events show ?thesis by fastforce
qed

lemma getPluginPath_no_write:
  "WriteFile p d \<notin> set (snd (getPluginPath env repoNameOrUrl))"
  using cloneRepository_no_write [of p d env repoNameOrUrl]
  by (auto simp: getPluginPath_def Let_def split: sum.splits)

lemma tryBody_writes:
  assumes "WriteFile p d \<in> set (fst (snd (tryBody env repoNameOrUrl repoName)))"
  shows "trim d \<noteq> []"
proof -
  obtain res evs where path: "getPluginPath env repoNameOrUrl = (res, evs)"
    by (cases "getPluginPath env repoNameOrUrl")
  have evs: "WriteFile p d \<notin> set evs"
    using getPluginPath_no_write [of p d env repoNameOrUrl] path by simp
  show ?thesis
  proof (cases res)
    case (Inl e)
    with path assms evs show ?thesis by (simp add: tryBody_def)
  next
    case (Inr repoPath)
    show ?thesis
    proof (cases "generateFor env repoPath")
      case (Inl e)
      with path Inr assms evs show ?thesis by (simp add: tryBody_def)
    next
      case gen: (Inr readme)
      show ?thesis
      proof (cases "readme = [] \<or> length (trim readme) = 0")
        case True
        with path Inr gen assms evs show ?thesis by (simp add: tryBody_def)
      next
        case False
        obtain res' evs' where pr: "createPullRequest env repoName readme = (res', evs')"
          by (cases "createPullRequest env repoName readme")
        from path Inr gen False pr assms evs have "WriteFile p d \<in> set evs'"
          by (cases res') (auto simp: tryBody_def split: if_splits option.splits)
        then have "d = readme"
          using createPullRequest_writes [of p d env repoName readme] pr by simp
        with False show ?thesis by simp
      qed
    qed
  qed
qed

text \<open>
  Claim C10. Every README that \<open>processPlugin\<close> hands to \<open>fs.writeFile\<close>, in local
  mode or in the clone, is non-blank. When the generated README is empty or only white
  space, the item fails with \<open>Generated README is empty\<close>: after the events of
  \<open>getPluginPath\<close> the only events are the logged failure and the removal of the clone,
  so no step of \<open>createPullRequest\<close> has run.
\<close>

theorem persistence_never_blank:
  "(\<forall>p d. WriteFile p d \<in> set (snd (processPlugin env repoNameOrUrl)) \<longrightarrow> trim d \<noteq> []) \<and>
   (\<forall>repoName repoPath evs readme.
      resolveRepoName repoNameOrUrl = Inr repoName \<and>
      getPluginPath env repoNameOrUrl = (Inr repoPath, evs) \<and>
      generateFor env repoPath = Inr readme \<and> trim readme = [] \<longrightarrow>
      processPlugin env repoNameOrUrl =
        (Inr (),
         evs @ [ConsoleError repoName (Error ''Generated README is empty'')] @
         (if \<not> LOCAL_MODE env \<and> repoPath \<noteq> [] then [Remove repoPath] else [])))"
proof (intro conjI allI impI)
  fix p d
  assume w: "WriteFile p d \<in> set (snd (processPlugin env repoNameOrUrl))"
  show "trim d \<noteq> []"
  proof (cases "resolveRepoName repoNameOrUrl")
    case (Inl e)
    with w show ?thesis by (simp add: processPlugin_def)
  next
    case (Inr repoName)
    obtain res evs repoPath where body: "tryBody env repoNameOrUrl repoName = (res, evs, repoPath)"
      by (cases "tryBody env repoNameOrUrl repoName")
    from w Inr body have "WriteFile p d \<in> set evs"
      by (cases res) (auto simp: processPlugin_def split: option.splits if_splits)
    with body tryBody_writes [of p d env repoNameOrUrl repoName] show ?thesis by simp
  qed
next
  fix repoName repoPath evs readme
  assume "resolveRepoName repoNameOrUrl = Inr repoName \<and>
      getPluginPath env repoNameOrUrl = (Inr repoPath, evs) \<and>
      generateFor env repoPath = Inr readme \<and> trim readme = []"
  then show "processPlugin env repoNameOrUrl =
        (Inr (),
         evs @ [ConsoleError repoName (Error ''Generated README is empty'')] @
         (if \<not> LOCAL_MODE env \<and> repoPath \<noteq> [] then [Remove repoPath] else []))"
    by (simp add: processPlugin_def tryBody_def)
qed

theorem persistence_never_blank_witness:
  "processPlugin (localEnv ''/work/plugins-automation'' blankFiles) ''plugin-x''
     = (Inr (), [ConsoleError ''plugin-x'' (Error ''Generated README is empty'')]) \<and>
   WriteFile ''/work/plugin-x/README.md'' ''# @elizaos/plugin-x''
     \<in> set (snd (processPlugin (localEnv ''/work/plugins-automation'' templateFiles) ''plugin-x'')) \<and>
   trim ''# @elizaos/plugin-x'' \<noteq> []"
proof -
  let ?blank = "localEnv ''/work/plugins-automation'' blankFiles"
  let ?good = "localEnv ''/work/plugins-automation'' templateFiles"
  have a: "resolveRepoName ''plugin-x'' = Inr ''plugin-x''" by code_simp
  have b: "getPluginPath ?blank ''plugin-x'' = (Inr ''/work/plugin-x'', [])" by code_simp
  have c: "generateFor ?blank ''/work/plugin-x'' = Inr ''  ''" by code_simp
  have d: "trim ''  '' = []" by code_simp
  have e: "LOCAL_MODE ?blank" by code_simp
  have f: "WriteFile ''/work/plugin-x/README.md'' ''# @elizaos/plugin-x''
     \<in> set (snd (processPlugin ?good ''plugin-x''))" by code_simp
  from persistence_never_blank [of ?blank "''plugin-x''"] a b c d e
  have "processPlugin ?blank ''plugin-x''
     = (Inr (), [ConsoleError ''plugin-x'' (Error ''Generated README is empty'')])"
    by simp
  moreover from persistence_never_blank [of ?good "''plugin-x''"] f
  have "trim ''# @elizaos/plugin-x'' \<noteq> []" by blast
  ultimately show ?thesis using f by blast
qed

lemma resolveRepoName_cases:
  "resolveRepoName r =
     (if isUrl r \<and> last (splitString r ''/'') = []
      then Inl (Error (''Invalid URL format: '' @ r))
      else Inr (if isUrl r then replace (last (splitString r ''/'')) ''.git'' [] else r))"
  by (simp add: resolveRepoName_def Let_def)

lemma processPlugin_caught:
  assumes "resolveRepoName r = Inr repoName"
  shows "fst (processPlugin env r) = Inr ()"
    and "tryBody env r repoName = (Inl e, evs, rp) \<Longrightarrow>
         ConsoleError repoName e \<in> set (snd (processPlugin env r))"
proof -
  obtain res evs' rp' where body: "tryBody env r repoName = (res, evs', rp')"
    by (cases "tryBody env r repoName")
  with assms show "fst (processPlugin env r) = Inr ()"
    by (cases res) (simp_all add: processPlugin_def)
  show "ConsoleError repoName e \<in> set (snd (processPlugin env r))"
    if "tryBody env r repoName = (Inl e, evs, rp)"
    using that assms by (simp add: processPlugin_def)
qed

lemma processAll_all:
  assumes "\<forall>r \<in> set repos. \<not> (isUrl r \<and> last (splitString r ''/'') = [])"
  shows "processAll env repos = (Inr (), concat (map (\<lambda>r. snd (processPlugin env r)) repos))"
  using assms
proof (induction repos)
  case Nil
  then show ?case by simp
next
  case (Cons r repos)
  then have "resolveRepoName r = Inr (if isUrl r then replace (last (splitString r ''/'')) ''.git'' [] else r)"
    by (simp add: resolveRepoName_cases)
  then have "fst (processPlugin env r) = Inr ()" by (rule processPlugin_caught(1))
  then have "processPlugin env r = (Inr (), snd (processPlugin env r))"
    by (cases "processPlugin env r") simp
  moreover from Cons have "processAll env repos = (Inr (), concat (map (\<lambda>r. snd (processPlugin env r)) repos))"
    by simp
  ultimately show ?case
    by (simp split: prod.splits sum.splits) (metis fst_conv snd_conv old.sum.inject(2) sum.distinct(1))
qed

text \<open>
  Claim C1, as amended. For every repository item other than a URL whose last segment
  is empty, \<open>processPlugin\<close> returns normally, and an error of its body is logged
  together with the repository name. When no item of the list is such a URL, the loop
  of \<open>main\<close> processes every item, in order, whatever fails in between.
\<close>

theorem failures_caught_per_item:
  "(\<not> (isUrl r \<and> last (splitString r ''/'') = []) \<longrightarrow>
      (\<exists>repoName. resolveRepoName r = Inr repoName \<and>
         fst (processPlugin env r) = Inr () \<and>
         (\<forall>e evs rp. tryBody env r repoName = (Inl e, evs, rp) \<longrightarrow>
            ConsoleError repoName e \<in> set (snd (processPlugin env r))))) \<and>
   ((\<forall>r \<in> set repos. \<not> (isUrl r \<and> last (splitString r ''/'') = [])) \<longrightarrow>
      fst (processAll env repos) = Inr () \<and>
      snd (processAll env repos) = concat (map (\<lambda>r. snd (processPlugin env r)) repos))"
proof (intro conjI impI)
  assume "\<not> (isUrl r \<and> last (splitString r ''/'') = [])"
  then have "resolveRepoName r = Inr (if isUrl r then replace (last (splitString r ''/'')) ''.git'' [] else r)"
    by (simp add: resolveRepoName_cases)
  then show "\<exists>repoName. resolveRepoName r = Inr repoName \<and>
         fst (processPlugin env r) = Inr () \<and>
         (\<forall>e evs rp. tryBody env r repoName = (Inl e, evs, rp) \<longrightarrow>
            ConsoleError repoName e \<in> set (snd (processPlugin env r)))"
    using processPlugin_caught by blast
next
  assume a: "\<forall>r \<in> set repos. \<not> (isUrl r \<and> last (splitString r ''/'') = [])"
  from processAll_all [OF a] show "fst (processAll env repos) = Inr ()" by simp
  from processAll_all [OF a]
  show "snd (processAll env repos) = concat (map (\<lambda>r. snd (processPlugin env r)) repos)" by simp
qed

theorem failures_caught_per_item_witness:
  "fst (processAll (localEnv ''/work/plugins-automation'' blankFiles) [''plugin-x'', ''plugin-y'']) = Inr () \<and>
   snd (processAll (localEnv ''/work/plugins-automation'' blankFiles) [''plugin-x'', ''plugin-y''])
     = [ConsoleError ''plugin-x'' (Error ''Generated README is empty''),
        ConsoleError ''plugin-y'' (Error ''Generated README is empty'')]"
proof -
  let ?env = "localEnv ''/work/plugins-automation'' blankFiles"
  have a: "\<forall>r \<in> set [''plugin-x'', ''plugin-y'']. \<not> (isUrl r \<and> last (splitString r ''/'') = [])"
    by (simp add: isUrl_def)
  have x: "snd (processPlugin ?env ''plugin-x'') = [ConsoleError ''plugin-x'' (Error ''Generated README is empty'')]"
    by code_simp
  have y: "snd (processPlugin ?env ''plugin-y'') = [ConsoleError ''plugin-y'' (Error ''Generated README is empty'')]"
    by code_simp
  from failures_caught_per_item [of "''plugin-x''" ?env "[''plugin-x'', ''plugin-y'']"] a
  have "fst (processAll ?env [''plugin-x'', ''plugin-y'']) = Inr () \<and>
        snd (processAll ?env [''plugin-x'', ''plugin-y''])
          = concat (map (\<lambda>r. snd (processPlugin ?env r)) [''plugin-x'', ''plugin-y''])"
    by blast
  with x y show ?thesis by simp
qed

text \<open>
  Claim C1 as stated fails for a URL that ends in a slash: the error \<open>Invalid URL format\<close>
  is thrown before the \<open>try\<close> of \<open>processPlugin\<close>, nothing is logged, and the loop of
  \<open>main\<close> ends without processing the next item.
\<close>

theorem invalid_url_escapes:
  "processPlugin (remoteEnv ''/work/plugins-automation'' templateFiles)
     ''https://github.com/elizaos-plugins/plugin-x/''
     = (Inl (Error ''Invalid URL format: https://github.com/elizaos-plugins/plugin-x/''), []) \<and>
   processAll (remoteEnv ''/work/plugins-automation'' templateFiles)
     [''https://github.com/elizaos-plugins/plugin-x/'', ''plugin-y'']
     = (Inl (Error ''Invalid URL format: https://github.com/elizaos-plugins/plugin-x/''), [])"
  by code_simp

section \<open>Properties of the methods of a service\<close>

lemma methodTail_shape:
  assumes "methodTail s = Some r"
  shows "\<exists>mid. s = mid @ CHR ''{'' # r"
proof -
  let ?ws = "takeWhile isSpace s"
  from assms obtain c t where d: "dropWhile isSpace s = c # t"
    by (auto simp: methodTail_def split: list.splits)
  have s: "s = ?ws @ c # t" using d takeWhile_dropWhile_id [of isSpace s] by simp
  show ?thesis
  proof (cases "c = CHR ''{''")
    case True
    with assms d have "r = t" by (simp add: methodTail_def)
    with s True show ?thesis by blast
  next
    case False
    with assms d obtain b where c: "c = CHR '':''"
      and dd: "dropWhile (\<lambda>x. x \<noteq> CHR ''{'') t = b # r"
      by (auto simp: methodTail_def split: list.splits if_splits)
    have "b = CHR ''{''" using dd hd_dropWhile [of "\<lambda>x. x \<noteq> CHR ''{''" t] by simp
    with dd have "t = takeWhile (\<lambda>x. x \<noteq> CHR ''{'') t @ CHR ''{'' # r"
      using takeWhile_dropWhile_id [of "\<lambda>x. x \<noteq> CHR ''{''" t] by simp
    with s have "s = (?ws @ c # takeWhile (\<lambda>x. x \<noteq> CHR ''{'') t) @ CHR ''{'' # r" by simp
    then show ?thesis by blast
  qed
qed

lemma methodCore_shape:
  assumes "methodCore s = Some (name, rest)"
  shows "\<exists>ws args mid. s = name @ ws @ CHR ''('' # args @ CHR '')'' # mid @ CHR ''{'' # rest \<and>
           name \<noteq> [] \<and> (\<forall>c \<in> set name. isWord c) \<and> (\<forall>c \<in> set ws. isSpace c) \<and>
           CHR '')'' \<notin> set args"
proof -
  let ?w = "dropWhile isWord s"
  from assms have name: "name = takeWhile isWord s" and ne: "name \<noteq> []"
    by (auto simp: methodCore_def Let_def split: list.splits if_splits option.splits)
  from assms obtain r b r' where
    d1: "dropWhile isSpace ?w = CHR ''('' # r" and
    d2: "dropWhile (\<lambda>x. x \<noteq> CHR '')'') r = b # r'" and
    t: "methodTail r' = Some rest"
    by (auto simp: methodCore_def Let_def split: list.splits if_splits option.splits)
  have "b = CHR '')''" using d2 hd_dropWhile [of "\<lambda>x. x \<noteq> CHR '')''" r] by simp
  with d2 have r: "r = takeWhile (\<lambda>x. x \<noteq> CHR '')'') r @ CHR '')'' # r'"
    using takeWhile_dropWhile_id [of "\<lambda>x. x \<noteq> CHR '')''" r] by simp
  from t obtain mid where mid: "r' = mid @ CHR ''{'' # rest"
    using methodTail_shape by blast
  have w: "?w = takeWhile isSpace ?w @ CHR ''('' # r"
    using d1 takeWhile_dropWhile_id [of isSpace ?w] by simp
  have "s = name @ ?w" using name by simp
  with w have "s = name @ takeWhile isSpace ?w @ CHR ''('' # r" by simp
  with r mid have "s = name @ takeWhile isSpace ?w @ CHR ''('' #
      takeWhile (\<lambda>x. x \<noteq> CHR '')'') r @ CHR '')'' # mid @ CHR ''{'' # rest" by simp
  moreover have "\<forall>c \<in> set name. isWord c"
    unfolding name by (auto dest: set_takeWhileD)
  moreover have "\<forall>c \<in> set (takeWhile isSpace ?w). isSpace c"
    by (auto dest: set_takeWhileD)
  moreover have "CHR '')'' \<notin> set (takeWhile (\<lambda>x. x \<noteq> CHR '')'') r)"
    by (auto dest: set_takeWhileD)
  ultimately show ?thesis using ne by blast
qed

lemma asyncPrefix_shape:
  assumes "asyncPrefix s = Some r"
  shows "\<exists>p. s = p @ r"
proof -
  from assms have "r = dropWhile isSpace (drop 5 s)"
    by (simp add: asyncPrefix_def split: if_splits)
  then have "s = (take 5 s @ takeWhile isSpace (drop 5 s)) @ r" by simp
  then show ?thesis by blast
qed

lemma methodMatch_shape:
  assumes "methodMatch s = Some (name, rest)"
  shows "\<exists>pre ws args mid. s = pre @ name @ ws @ CHR ''('' # args @ CHR '')'' # mid @ CHR ''{'' # rest \<and>
           name \<noteq> [] \<and> (\<forall>c \<in> set name. isWord c) \<and> (\<forall>c \<in> set ws. isSpace c) \<and>
           CHR '')'' \<notin> set args"
proof -
  from assms consider "methodCore s = Some (name, rest)"
    | r where "asyncPrefix s = Some r" "methodCore r = Some (name, rest)"
    by (auto simp: methodMatch_def split: option.splits)
  then show ?thesis
  proof cases
    case 1
    from methodCore_shape [OF 1] obtain ws args mid where
      "s = [] @ name @ ws @ CHR ''('' # args @ CHR '')'' # mid @ CHR ''{'' # rest \<and>
           name \<noteq> [] \<and> (\<forall>c \<in> set name. isWord c) \<and> (\<forall>c \<in> set ws. isSpace c) \<and>
           CHR '')'' \<notin> set args" by auto
    then show ?thesis by blast
  next
    case 2
    from asyncPrefix_shape [OF 2(1)] obtain p where p: "s = p @ r" by blast
    from methodCore_shape [OF 2(2)] obtain ws args mid where
      "r = name @ ws @ CHR ''('' # args @ CHR '')'' # mid @ CHR ''{'' # rest \<and>
           name \<noteq> [] \<and> (\<forall>c \<in> set name. isWord c) \<and> (\<forall>c \<in> set ws. isSpace c) \<and>
           CHR '')'' \<notin> set args" by blast
    with p show ?thesis by blast
  qed
qed

lemma methodNames_callLike:
  "name \<in> set (methodNames s) \<Longrightarrow> callLike name s"
proof (induction s rule: methodNames.induct)
  case 1
  then show ?case by simp
next
  case (2 c cs)
  show ?case
  proof (cases "methodMatch (c # cs)")
    case None
    with 2 have "callLike name cs" by simp
    then obtain pre ws args post where
      "cs = pre @ name @ ws @ CHR ''('' # args @ CHR '')'' # post" and
      rest: "name \<noteq> []" "\<forall>c \<in> set name. isWord c" "\<forall>c \<in> set ws. isSpace c"
        "CHR '')'' \<notin> set args" "CHR ''{'' \<in> set post" by blast
    then have "c # cs = (c # pre) @ name @ ws @ CHR ''('' # args @ CHR '')'' # post" by simp
    with rest show ?thesis by blast
  next
    case (Some m)
    obtain n rest where m: "m = (n, rest)" by (cases m)
    from methodMatch_shape [of "c # cs" n rest] Some m obtain pre ws args mid where
      shape: "c # cs = pre @ n @ ws @ CHR ''('' # args @ CHR '')'' # mid @ CHR ''{'' # rest" and
      props: "n \<noteq> []" "\<forall>c \<in> set n. isWord c" "\<forall>c \<in> set ws. isSpace c" "CHR '')'' \<notin> set args"
      by blast
    from 2 Some m have "name = n \<or> name \<in> set (methodNames rest)" by simp
    then show ?thesis
    proof
      assume "name = n"
      moreover have "CHR ''{'' \<in> set (mid @ CHR ''{'' # rest)" by simp
      ultimately show ?thesis using shape props by blast
    next
      assume "name \<in> set (methodNames rest)"
      with 2 Some m have "callLike name rest" by simp
      then obtain pre' ws' args' post' where
        "rest = pre' @ name @ ws' @ CHR ''('' # args' @ CHR '')'' # post'" and
        rest: "name \<noteq> []" "\<forall>c \<in> set name. isWord c" "\<forall>c \<in> set ws'. isSpace c"
          "CHR '')'' \<notin> set args'" "CHR ''{'' \<in> set post'" by blast
      with shape have "c # cs = (pre @ n @ ws @ CHR ''('' # args @ CHR '')'' # mid @ CHR ''{'' # pre')
          @ name @ ws' @ CHR ''('' # args' @ CHR '')'' # post'" by simp
      with rest show ?thesis by blast
    qed
  qed
qed

lemma methodOf_name:
  assumes "m \<in> set (methodOf sourceCode methodName)"
  shows "met_name m = methodName \<and> methodName \<noteq> ''constructor'' \<and> \<not> prefix ''_'' methodName"
proof (cases "methodName \<noteq> [] \<and> methodName \<noteq> ''constructor'' \<and> \<not> prefix ''_'' methodName")
  case False
  then have "methodOf sourceCode methodName = []" unfolding methodOf_def by (rule if_not_P)
  with assms show ?thesis by simp
next
  case True
  then have "methodOf sourceCode methodName =
      (case firstSignature methodName sourceCode of
         None \<Rightarrow> []
       | Some parameters \<Rightarrow>
           [\<lparr>met_name = methodName, met_parameters = parameters, met_description = []\<rparr>])"
    unfolding methodOf_def by (rule if_P)
  with assms have "met_name m = methodName"
    by (cases "firstSignature methodName sourceCode") simp_all
  with True show ?thesis by blast
qed

text \<open>
  Claim C9. For every service source text, no method in the recovered list is named
  \<open>constructor\<close>, none has a name that starts with an underscore, and every recovered
  name stands in the text in a method-call-like pattern.
\<close>

theorem service_methods_filtered:
  "\<forall>methods m. serviceMethods sourceCode = Some methods \<and> m \<in> set methods \<longrightarrow>
     met_name m \<noteq> ''constructor'' \<and> \<not> prefix ''_'' (met_name m) \<and>
     callLike (met_name m) sourceCode"
proof (intro allI impI)
  fix methods m
  assume "serviceMethods sourceCode = Some methods \<and> m \<in> set methods"
  then have "m \<in> set (extractMethods sourceCode)"
    by (auto simp: serviceMethods_def Let_def split: if_splits)
  then obtain methodName where n: "methodName \<in> set (methodNames sourceCode)"
    and m: "m \<in> set (methodOf sourceCode methodName)"
    by (auto simp: extractMethods_def)
  from methodOf_name [OF m] methodNames_callLike [OF n]
  show "met_name m \<noteq> ''constructor'' \<and> \<not> prefix ''_'' (met_name m) \<and>
     callLike (met_name m) sourceCode" by simp
qed

theorem service_methods_filtered_witness:
  "serviceMethods walletService =
     Some [\<lparr>met_name = ''getBalance'', met_parameters = ''address: string'', met_description = []\<rparr>,
           \<lparr>met_name = ''stop'', met_parameters = [], met_description = []\<rparr>] \<and>
   sublist ''constructor('' walletService \<and> sublist ''_fetch('' walletService \<and>
   callLike ''getBalance'' walletService"
proof -
  let ?m = "\<lparr>met_name = ''getBalance'', met_parameters = ''address: string'', met_description = []\<rparr>"
  let ?ms = "[?m, \<lparr>met_name = ''stop'', met_parameters = [], met_description = []\<rparr>]"
  have run: "serviceMethods walletService = Some ?ms" by code_simp
  have c: "sublist ''constructor('' walletService" by code_simp
  have f: "sublist ''_fetch('' walletService" by code_simp
  have "?m \<in> set ?ms" by simp
  with service_methods_filtered [of walletService] run
  have "callLike (met_name ?m) walletService" by blast
  then have "callLike ''getBalance'' walletService" by simp
  with run c f show ?thesis by blast
qed

section \<open>Properties of the scan for environment variables\<close>

lemma foldl_setAdd:
  "set (foldl setAdd acc xs) = set acc \<union> set xs \<and> (distinct acc \<longrightarrow> distinct (foldl setAdd acc xs))"
  by (induction xs arbitrary: acc) (auto simp: setAdd_def)

lemma foldl_patterns:
  "set (foldl (\<lambda>vars pattern. foldl setAdd vars (envMatches pattern content)) acc ps)
     = set acc \<union> (\<Union>pattern \<in> set ps. set (envMatches pattern content)) \<and>
   (distinct acc \<longrightarrow>
      distinct (foldl (\<lambda>vars pattern. foldl setAdd vars (envMatches pattern content)) acc ps))"
proof (induction ps arbitrary: acc)
  case Nil
  then show ?case by simp
next
  case (Cons p ps)
  from foldl_setAdd [of acc "envMatches p content"] Cons [of "foldl setAdd acc (envMatches p content)"]
  show ?case by auto
qed

lemma scanContent_set:
  "set (scanContent content acc) = set acc \<union> (\<Union>pattern \<in> set envPatterns. set (envMatches pattern content))"
  "distinct acc \<Longrightarrow> distinct (scanContent content acc)"
  using foldl_patterns [of content acc envPatterns] by (simp_all add: scanContent_def)

lemma search_discovered:
  "searchForEnvVars files acc = Inr r \<Longrightarrow>
     set r = set acc \<union> discovered files \<and> (distinct acc \<longrightarrow> distinct r)"
  "searchEntry en acc = Inr r \<Longrightarrow>
     set r = set acc \<union> discoveredIn en \<and> (distinct acc \<longrightarrow> distinct r)"
proof (induction files acc and en acc arbitrary: r and r rule: searchForEnvVars_searchEntry.induct)
  case (1 envVars)
  then show ?case by simp
next
  case (2 en files envVars)
  from "2.prems" obtain mid where a: "searchEntry en envVars = Inr mid"
    and b: "searchForEnvVars files mid = Inr r"
    by (auto split: sum.splits)
  from "2.IH"(1) [OF a] "2.IH"(2) [OF a b] show ?case by auto
next
  case (3 name files envVars)
  then show ?case by (auto split: if_splits)
next
  case (4 name content envVars)
  then show ?case by (auto simp: scanContent_set split: if_splits)
next
  case (5 name e envVars)
  then show ?case by simp
qed

lemma scanEnvVars_result:
  assumes "scanEnvVars files = Inr xs"
  shows "distinct xs \<and> sorted xs \<and> set xs = discovered files \<and>
         xs = sorted_list_of_set (discovered files)"
proof -
  from assms obtain r where r: "searchForEnvVars files [] = Inr r" and xs: "xs = sort r"
    by (auto simp: scanEnvVars_def split: sum.splits)
  from search_discovered(1) [OF r] have s: "set r = discovered files" and d: "distinct r" by simp_all
  from d have "sorted_list_of_set (set r) = sort r"
    by (simp add: sorted_list_of_set_sort_remdups distinct_remdups_id)
  with s d xs show ?thesis by simp
qed

lemma discovered_Union: "discovered files = (\<Union>f \<in> set files. discoveredIn f)"
  by (induction files) simp_all

lemma failure_independent:
  "isl (searchForEnvVars files acc) = isl (searchForEnvVars files acc')"
  "isl (searchEntry en acc) = isl (searchEntry en acc')"
proof (induction files acc and en acc arbitrary: acc' and acc'
    rule: searchForEnvVars_searchEntry.induct)
  case (1 envVars)
  then show ?case by simp
next
  case (2 en files envVars)
  show ?case
  proof (cases "searchEntry en envVars")
    case (Inl e)
    with "2.IH"(1) [of acc'] have "isl (searchEntry en acc')" by simp
    then obtain e' where "searchEntry en acc' = Inl e'" by (cases "searchEntry en acc'") simp_all
    with Inl show ?thesis by simp
  next
    case (Inr mid)
    with "2.IH"(1) [of acc'] have "\<not> isl (searchEntry en acc')" by simp
    then obtain mid' where m: "searchEntry en acc' = Inr mid'"
      by (cases "searchEntry en acc'") simp_all
    from "2.IH"(2) [OF Inr, of mid'] Inr m show ?thesis by simp
  qed
next
  case (3 name files envVars)
  show ?case
  proof (cases "\<not> sublist ''node_modules'' name \<and> \<not> sublist ''.git'' name")
    case True
    with "3.IH" [of acc'] show ?thesis by simp
  next
    case False
    then show ?thesis by auto
  qed
next
  case (4 name content envVars)
  show ?case by simp
next
  case (5 name e envVars)
  show ?case by simp
qed

lemma failure_iff:
  "isl (searchForEnvVars files acc) \<longleftrightarrow> (\<exists>f \<in> set files. isl (searchEntry f []))"
proof (induction files arbitrary: acc)
  case Nil
  then show ?case by simp
next
  case (Cons en files)
  show ?case
  proof (cases "searchEntry en acc")
    case (Inl e)
    with failure_independent(2) [of en acc "[]"] show ?thesis by simp
  next
    case (Inr mid)
    with failure_independent(2) [of en acc "[]"] Cons [of mid] show ?thesis by simp
  qed
qed

text \<open>
  Claim C3. Whenever the scan of a source tree returns, its list holds each discovered
  identifier exactly once, in lexicographic order: it is the sorted list of the set of
  discovered identifiers. Two trees with the same discovered identifiers give the same
  list, and so does any reordering or repetition of the entries of the directory. The
  file of the example gives exactly \<open>BAR\<close>, \<open>FOO\<close>.
\<close>

theorem env_scan_sorted_distinct:
  "(\<forall>xs. scanEnvVars files = Inr xs \<longrightarrow>
      distinct xs \<and> sorted xs \<and> set xs = discovered files \<and>
      xs = sorted_list_of_set (discovered files)) \<and>
   (\<forall>files' xs ys. scanEnvVars files = Inr xs \<and> scanEnvVars files' = Inr ys \<and>
      discovered files' = discovered files \<longrightarrow> ys = xs) \<and>
   (\<forall>files' xs. scanEnvVars files = Inr xs \<and> set files' = set files \<longrightarrow>
      scanEnvVars files' = Inr xs) \<and>
   scanEnvVars [File ''index.ts'' settingsFile] = Inr [''BAR'', ''FOO'']"
proof -
  have sorted_set: "\<forall>xs. scanEnvVars files = Inr xs \<longrightarrow>
      distinct xs \<and> sorted xs \<and> set xs = discovered files \<and>
      xs = sorted_list_of_set (discovered files)"
    using scanEnvVars_result by blast
  have same: "\<forall>files' xs ys. scanEnvVars files = Inr xs \<and> scanEnvVars files' = Inr ys \<and>
      discovered files' = discovered files \<longrightarrow> ys = xs"
  proof (intro allI impI)
    fix files' xs ys
    assume "scanEnvVars files = Inr xs \<and> scanEnvVars files' = Inr ys \<and>
      discovered files' = discovered files"
    with scanEnvVars_result [of files xs] scanEnvVars_result [of files' ys]
    show "ys = xs" by simp
  qed
  have order: "\<forall>files' xs. scanEnvVars files = Inr xs \<and> set files' = set files \<longrightarrow>
      scanEnvVars files' = Inr xs"
  proof (intro allI impI)
    fix files' xs
    assume a: "scanEnvVars files = Inr xs \<and> set files' = set files"
    then have "\<not> isl (searchForEnvVars files [])"
      by (auto simp: scanEnvVars_def split: sum.splits)
    with a have "\<not> isl (searchForEnvVars files' [])"
      by (simp add: failure_iff)
    then obtain ys where ys: "scanEnvVars files' = Inr ys"
      by (cases "searchForEnvVars files' []") (simp_all add: scanEnvVars_def)
    from a have "discovered files' = discovered files" by (simp add: discovered_Union)
    with a ys scanEnvVars_result [of files xs] scanEnvVars_result [of files' ys]
    show "scanEnvVars files' = Inr xs" by simp
  qed
  have example: "scanEnvVars [File ''index.ts'' settingsFile] = Inr [''BAR'', ''FOO'']"
    by code_simp
  show ?thesis
    by (rule conjI [OF sorted_set conjI [OF same conjI [OF order example]]])
qed

theorem env_scan_sorted_distinct_witness:
  "scanEnvVars [File ''a.ts'' ''process.env.FOO'', File ''b.js'' settingsFile]
     = Inr [''BAR'', ''FOO''] \<and>
   scanEnvVars [File ''b.js'' settingsFile, File ''a.ts'' ''process.env.FOO'']
     = Inr [''BAR'', ''FOO''] \<and>
   sorted [''BAR'', ''FOO''] \<and> distinct [''BAR'', ''FOO'']"
proof -
  let ?a = "[File ''a.ts'' ''process.env.FOO'', File ''b.js'' settingsFile]"
  let ?b = "[File ''b.js'' settingsFile, File ''a.ts'' ''process.env.FOO'']"
  have run: "scanEnvVars ?a = Inr [''BAR'', ''FOO'']" by code_simp
  have perm: "set ?b = set ?a" by (simp add: insert_commute)
  note inst = env_scan_sorted_distinct [of ?a]
  from inst [THEN conjunct2, THEN conjunct2, THEN conjunct1, THEN spec, THEN spec, THEN mp,
      OF conjI [OF run perm]]
  have b: "scanEnvVars ?b = Inr [''BAR'', ''FOO'']" .
  from inst [THEN conjunct1, THEN spec, THEN mp, OF run]
  have "distinct [''BAR'', ''FOO''] \<and> sorted [''BAR'', ''FOO'']" by simp
  with run b show ?thesis by simp
qed

section \<open>Properties of the extraction of actions\<close>

lemma pushComponent_state:
  assumes "pushComponent details n state = Inr state'"
  shows "snd state' = insert n (snd state)"
    and "ci_name ` set (fst state') = insert n (ci_name ` set (fst state))"
  using assms by (auto simp: pushComponent_def split: sum.splits)

lemma addRefs_invariant:
  assumes "addRefs details imports refs state = Inr state'"
    and "snd state = ci_name ` set (fst state)"
  shows "snd state' = ci_name ` set (fst state') \<and> snd state \<subseteq> snd state' \<and>
         snd state' \<subseteq> snd state \<union> componentNameOf imports ` set refs"
  using assms
proof (induction refs arbitrary: state)
  case Nil
  then show ?case by simp
next
  case (Cons ref refs)
  show ?case
  proof (cases "ref \<noteq> [] \<and> ref \<notin> set jsKeywords \<and> ref \<notin> snd state")
    case False
    with Cons.prems have run: "addRefs details imports refs state = Inr state'" by auto
    from Cons.IH [OF run Cons.prems(2)] show ?thesis by auto
  next
    case True
    with Cons.prems obtain mid where
      push: "pushComponent details (componentNameOf imports ref) state = Inr mid" and
      run: "addRefs details imports refs mid = Inr state'"
      by (auto split: sum.splits)
    from pushComponent_state [OF push] Cons.prems(2)
    have mid: "snd mid = ci_name ` set (fst mid)"
      and grow: "snd mid = insert (componentNameOf imports ref) (snd state)" by simp_all
    from Cons.IH [OF run mid] grow show ?thesis by auto
  qed
qed

lemma addInline_invariant:
  assumes "addInline details names state = Inr state'"
    and "snd state = ci_name ` set (fst state)"
  shows "snd state' = ci_name ` set (fst state') \<and> snd state \<subseteq> snd state' \<and>
         snd state' \<subseteq> snd state \<union> set names"
  using assms
proof (induction names arbitrary: state)
  case Nil
  then show ?case by simp
next
  case (Cons n names)
  show ?case
  proof (cases "n \<noteq> [] \<and> n \<notin> snd state")
    case False
    with Cons.prems have run: "addInline details names state = Inr state'" by auto
    from Cons.IH [OF run Cons.prems(2)] show ?thesis by auto
  next
    case True
    with Cons.prems obtain mid where
      push: "pushComponent details n state = Inr mid" and
      run: "addInline details names mid = Inr state'"
      by (auto split: sum.splits)
    from pushComponent_state [OF push] Cons.prems(2)
    have mid: "snd mid = ci_name ` set (fst mid)"
      and grow: "snd mid = insert n (snd state)" by simp_all
    from Cons.IH [OF run mid] grow show ?thesis by auto
  qed
qed

lemma wordRefs_nonempty: "r \<in> set (wordRefs s) \<Longrightarrow> r \<noteq> []"
  by (induction s rule: wordRefs.induct) (auto split: if_splits)

lemma actionComponents_stages:
  assumes "actionComponents details imports content = Inr comps"
  obtains afterRefs final where
    "addRefs details imports (wordRefs (cleanContent content)) ([], {}) = Inr afterRefs"
    "addInline details (inlineActions (cleanContent content)) afterRefs = Inr final"
    "comps = fst final"
  using assms by (auto simp: actionComponents_def Let_def split: sum.splits)

lemma addRefs_first:
  assumes "addRefs details imports (before @ ref # after) state = Inr state'"
    and "snd state = ci_name ` set (fst state)"
    and "ref \<notin> snd state" and "ref \<notin> componentNameOf imports ` set before"
    and "ref \<noteq> []" and "ref \<notin> set jsKeywords"
  shows "componentNameOf imports ref \<in> snd state'"
  using assms(1-4)
proof (induction before arbitrary: state)
  case Nil
  with assms(5,6) obtain mid where
    push: "pushComponent details (componentNameOf imports ref) state = Inr mid" and
    run: "addRefs details imports after mid = Inr state'"
    by (auto split: sum.splits)
  from pushComponent_state [OF push] Nil.prems(2)
  have mid: "snd mid = ci_name ` set (fst mid)"
    and grow: "snd mid = insert (componentNameOf imports ref) (snd state)" by simp_all
  from addRefs_invariant [OF run mid] grow show ?case by auto
next
  case (Cons r before)
  from Cons.prems(4) have later: "ref \<notin> componentNameOf imports ` set before"
    and other: "componentNameOf imports r \<noteq> ref" by auto
  show ?case
  proof (cases "r \<noteq> [] \<and> r \<notin> set jsKeywords \<and> r \<notin> snd state")
    case False
    with Cons.prems(1) have run: "addRefs details imports (before @ ref # after) state = Inr state'"
      by auto
    from Cons.IH [OF run Cons.prems(2,3) later] show ?thesis .
  next
    case True
    with Cons.prems(1) obtain mid where
      push: "pushComponent details (componentNameOf imports r) state = Inr mid" and
      run: "addRefs details imports (before @ ref # after) mid = Inr state'"
      by (auto split: sum.splits)
    from pushComponent_state [OF push] Cons.prems(2)
    have mid: "snd mid = ci_name ` set (fst mid)"
      and grow: "snd mid = insert (componentNameOf imports r) (snd state)" by simp_all
    from grow other Cons.prems(3) have "ref \<notin> snd mid" by auto
    from Cons.IH [OF run mid this later] show ?thesis .
  qed
qed

lemma componentNameOf_sendToken:
  assumes "imports ''sendToken'' = Some ''transferAction''"
    and "componentNameOf imports ref = ''sendToken''"
  shows "imports ref = Some ''sendToken''"
proof (cases "imports ref")
  case None
  with assms(2) have "ref = ''sendToken''" by (simp add: componentNameOf_def)
  with None assms(1) show ?thesis by simp
next
  case (Some n)
  show ?thesis
  proof (cases "n = []")
    case True
    with Some assms(2) have "ref = ''sendToken''" by (simp add: componentNameOf_def)
    with Some True assms(1) show ?thesis by simp
  next
    case False
    with Some assms(2) show ?thesis by (simp add: componentNameOf_def)
  qed
qed

lemma actionComponents_alias:
  assumes comps: "actionComponents details imports content = Inr comps"
    and imp: "imports ''sendToken'' = Some ''transferAction''"
    and ref: "''sendToken'' \<in> set (wordRefs (cleanContent content))"
    and orig: "\<forall>r \<in> set (takeWhile (\<lambda>r. r \<noteq> ''sendToken'') (wordRefs (cleanContent content))).
                 imports r \<noteq> Some ''sendToken''"
  shows "''transferAction'' \<in> ci_name ` set comps"
    and "''sendToken'' \<in> ci_name ` set comps \<Longrightarrow>
         ''sendToken'' \<in> set (inlineActions (cleanContent content)) \<or>
         (\<exists>r \<in> set (wordRefs (cleanContent content)). imports r = Some ''sendToken'')"
proof -
  let ?refs = "wordRefs (cleanContent content)"
  let ?before = "takeWhile (\<lambda>r. r \<noteq> ''sendToken'') ?refs"
  from comps obtain afterRefs final where
    refs: "addRefs details imports ?refs ([], {}) = Inr afterRefs" and
    inline: "addInline details (inlineActions (cleanContent content)) afterRefs = Inr final" and
    final: "comps = fst final"
    by (rule actionComponents_stages)
  have start: "snd (([], {}) :: ComponentInfo list \<times> string set) = ci_name ` set (fst ([], {}))"
    by simp
  have fresh: "''sendToken'' \<notin> snd (([], {}) :: ComponentInfo list \<times> string set)" by simp
  from ref have "dropWhile (\<lambda>r. r \<noteq> ''sendToken'') ?refs \<noteq> []" by simp
  then obtain after where
    "dropWhile (\<lambda>r. r \<noteq> ''sendToken'') ?refs = hd (dropWhile (\<lambda>r. r \<noteq> ''sendToken'') ?refs) # after"
    by (cases "dropWhile (\<lambda>r. r \<noteq> ''sendToken'') ?refs") simp_all
  moreover from ref have "hd (dropWhile (\<lambda>r. r \<noteq> ''sendToken'') ?refs) = ''sendToken''"
    using hd_dropWhile [of "\<lambda>r. r \<noteq> ''sendToken''" ?refs] by simp
  ultimately have "dropWhile (\<lambda>r. r \<noteq> ''sendToken'') ?refs = ''sendToken'' # after" by simp
  then have split: "?refs = ?before @ ''sendToken'' # after"
    using takeWhile_dropWhile_id [of "\<lambda>r. r \<noteq> ''sendToken''" ?refs] by simp
  have unbound: "''sendToken'' \<notin> componentNameOf imports ` set ?before"
  proof
    assume "''sendToken'' \<in> componentNameOf imports ` set ?before"
    then obtain r where r: "r \<in> set ?before" and n: "''sendToken'' = componentNameOf imports r"
      by (rule imageE)
    from n have "componentNameOf imports r = ''sendToken''" by (rule sym)
    with imp have "imports r = Some ''sendToken''" by (rule componentNameOf_sendToken)
    with orig r show False by blast
  qed
  have kw: "''sendToken'' \<notin> set jsKeywords" by (simp add: jsKeywords_def)
  have ne: "''sendToken'' \<noteq> []" by simp
  from refs have run: "addRefs details imports (?before @ ''sendToken'' # after) ([], {}) = Inr afterRefs"
    using split by simp
  from addRefs_first [OF run start fresh unbound ne kw] imp
  have t: "''transferAction'' \<in> snd afterRefs" by (simp add: componentNameOf_def)
  note r = addRefs_invariant [OF refs start]
  from r have inv: "snd afterRefs = ci_name ` set (fst afterRefs)" by (rule conjunct1)
  from r have "snd afterRefs \<subseteq>
      snd (([], {}) :: ComponentInfo list \<times> string set) \<union> componentNameOf imports ` set ?refs"
    by (rule conjunct2 [THEN conjunct2])
  then have sub: "snd afterRefs \<subseteq> componentNameOf imports ` set ?refs" by simp
  note i = addInline_invariant [OF inline inv]
  from i have inv': "snd final = ci_name ` set (fst final)" by (rule conjunct1)
  from i have mono: "snd afterRefs \<subseteq> snd final" by (rule conjunct2 [THEN conjunct1])
  from i have sub': "snd final \<subseteq> snd afterRefs \<union> set (inlineActions (cleanContent content))"
    by (rule conjunct2 [THEN conjunct2])
  from t mono inv' final show "''transferAction'' \<in> ci_name ` set comps" by auto
  show "''sendToken'' \<in> set (inlineActions (cleanContent content)) \<or>
        (\<exists>r \<in> set ?refs. imports r = Some ''sendToken'')"
    if "''sendToken'' \<in> ci_name ` set comps"
  proof (cases "''sendToken'' \<in> snd afterRefs")
    case False
    from that final inv' have "''sendToken'' \<in> snd final" by simp
    with sub' False show ?thesis by auto
  next
    case True
    with sub have "''sendToken'' \<in> componentNameOf imports ` set ?refs" by (rule subsetD)
    then obtain r where r: "r \<in> set ?refs" and n: "''sendToken'' = componentNameOf imports r"
      by (rule imageE)
    from n have "componentNameOf imports r = ''sendToken''" by (rule sym)
    with imp have "imports r = Some ''sendToken''" by (rule componentNameOf_sendToken)
    with r show ?thesis by blast
  qed
qed

lemma arrayMatch_Nil: "arrayMatch pattern [] = None"
  by (cases pattern) (simp_all add: actionsColon_def literal_def)

lemma tryPatterns_append:
  "tryPatterns details imports indexContent (earlier @ later) =
     (case tryPatterns details imports indexContent earlier of
        Inl e \<Rightarrow> Inl e
      | Inr components \<Rightarrow>
          if components = [] then tryPatterns details imports indexContent later
          else Inr components)"
  by (induction earlier) (auto split: option.splits sum.splits)

text \<open>
  Claim C4, as amended. Let the table of imports bind \<open>sendToken\<close> to \<open>transferAction\<close>,
  as it does for \<open>import { transferAction as sendToken } from './actions'\<close>. Let one of
  the four patterns for the array of actions match an array that lists \<open>sendToken\<close>,
  while the patterns tried before it give no component, and let no reference listed
  before \<open>sendToken\<close> in that array be imported from \<open>./actions\<close> under the original
  name \<open>sendToken\<close>. Then the extraction, when it returns, records a component under
  the name \<open>transferAction\<close>; a component named \<open>sendToken\<close> is recorded only for an
  inline action object of that name, or for a listed reference whose original name is
  \<open>sendToken\<close>.
\<close>

theorem alias_resolved_to_original:
  assumes "actionImports indexContent ''sendToken'' = Some ''transferAction''"
    and "actionPatterns = earlier @ pattern # later"
    and "tryPatterns details (actionImports indexContent) indexContent earlier = Inr []"
    and "firstMatch (arrayMatch pattern) indexContent = Some content"
    and "''sendToken'' \<in> set (wordRefs (cleanContent content))"
    and "\<forall>r \<in> set (takeWhile (\<lambda>r. r \<noteq> ''sendToken'') (wordRefs (cleanContent content))).
           actionImports indexContent r \<noteq> Some ''sendToken''"
    and "indexActions details indexContent = Inr actions"
  shows "(\<exists>c \<in> set actions. ci_name c = ''transferAction'') \<and>
         (\<forall>c \<in> set actions. ci_name c = ''sendToken'' \<longrightarrow>
            ''sendToken'' \<in> set (inlineActions (cleanContent content)) \<or>
            (\<exists>r \<in> set (wordRefs (cleanContent content)).
               actionImports indexContent r = Some ''sendToken''))"
proof -
  let ?imports = "actionImports indexContent"
  have "firstMatch (arrayMatch pattern) [] = None" by (simp add: arrayMatch_Nil)
  with assms(4) have index: "indexContent \<noteq> []" by auto
  have "wordRefs (cleanContent []) = []" by (simp add: cleanContent_def)
  with assms(5) have content: "content \<noteq> []" by auto
  from assms(7) index have "tryPatterns details ?imports indexContent actionPatterns = Inr actions"
    by (simp add: indexActions_def)
  then have "tryPatterns details ?imports indexContent (pattern # later) = Inr actions"
    unfolding assms(2) tryPatterns_append assms(3) by simp
  with assms(4) content obtain comps where
    comps: "actionComponents details ?imports content = Inr comps" and
    result: "actions = (if length comps > 0 then comps
       else (case tryPatterns details ?imports indexContent later of Inr a \<Rightarrow> a | Inl e \<Rightarrow> []))"
    by (auto split: sum.splits if_splits)
  from actionComponents_alias(1) [OF comps assms(1) assms(5) assms(6)]
  have t: "''transferAction'' \<in> ci_name ` set comps" .
  then have "comps \<noteq> []" by auto
  with result have eq: "actions = comps" by simp
  from t eq have recorded: "\<exists>c \<in> set actions. ci_name c = ''transferAction''" by force
  have "\<forall>c \<in> set actions. ci_name c = ''sendToken'' \<longrightarrow>
            ''sendToken'' \<in> set (inlineActions (cleanContent content)) \<or>
            (\<exists>r \<in> set (wordRefs (cleanContent content)). ?imports r = Some ''sendToken'')"
  proof (intro ballI impI)
    fix c
    assume "c \<in> set actions" and "ci_name c = ''sendToken''"
    with eq have "''sendToken'' \<in> ci_name ` set comps" by force
    then show "''sendToken'' \<in> set (inlineActions (cleanContent content)) \<or>
            (\<exists>r \<in> set (wordRefs (cleanContent content)). ?imports r = Some ''sendToken'')"
      by (rule actionComponents_alias(2) [OF comps assms(1) assms(5) assms(6)])
  qed
  with recorded show ?thesis by (rule conjI)
qed

lemma alias_import_matches:
  "importMatches aliasIndex = [(Some '' transferAction as sendToken '', None)]"
  "importMatches exportIndex = [(Some '' transferAction as sendToken '', None)]"
  "importMatches dotIndex = [(Some '' transferAction as sendToken '', None)]"
  by code_simp+

lemma alias_imports:
  assumes "importMatches indexContent = [(Some '' transferAction as sendToken '', None)]"
  shows "actionImports indexContent = [''sendToken'' \<mapsto> ''transferAction'']"
proof -
  have names: "map trim (splitString '' transferAction as sendToken '' '','') = [''transferAction as sendToken'']"
    by code_simp
  have parts: "splitString ''transferAction as sendToken'' '' as '' = [''transferAction'', ''sendToken'']"
    by code_simp
  show ?thesis
    unfolding actionImports_def assms
    by (simp add: bindMatch_def names bindImport_def parts)
qed

theorem alias_resolved_to_original_witness:
  "actionImports exportIndex ''sendToken'' = Some ''transferAction'' \<and>
   firstMatch (arrayMatch ActionsColon) exportIndex = None \<and>
   firstMatch (arrayMatch ExportConstActions) exportIndex = Some ''sendToken'' \<and>
   (\<exists>actions. indexActions noDetails exportIndex = Inr actions \<and>
      map ci_name actions = [''transferAction''] \<and>
      (\<exists>c \<in> set actions. ci_name c = ''transferAction'') \<and>
      (\<forall>c \<in> set actions. ci_name c \<noteq> ''sendToken''))"
proof -
  let ?imports = "actionImports exportIndex"
  have table: "?imports = [''sendToken'' \<mapsto> ''transferAction'']"
    by (rule alias_imports) (rule alias_import_matches(2))
  have h1: "?imports ''sendToken'' = Some ''transferAction''"
    by (simp add: table)
  have h2: "actionPatterns = [ActionsColon] @ ExportConstActions # [DotActions, ExportDefault]"
    by (simp add: actionPatterns_def)
  have none: "firstMatch (arrayMatch ActionsColon) exportIndex = None" by code_simp
  then have h3: "tryPatterns noDetails ?imports exportIndex [ActionsColon] = Inr []" by simp
  have h4: "firstMatch (arrayMatch ExportConstActions) exportIndex = Some ''sendToken''"
    by code_simp
  have refs: "wordRefs (cleanContent ''sendToken'') = [''sendToken'']" by code_simp
  have h5: "''sendToken'' \<in> set (wordRefs (cleanContent ''sendToken''))"
    by (simp add: refs)
  have h6: "\<forall>r \<in> set (takeWhile (\<lambda>r. r \<noteq> ''sendToken'') (wordRefs (cleanContent ''sendToken''))).
      ?imports r \<noteq> Some ''sendToken''"
    by (simp add: refs)
  have run: "map_sum id (map ci_name) (indexActions noDetails exportIndex) = Inr [''transferAction'']"
    by code_simp
  then obtain actions where
    h7: "indexActions noDetails exportIndex = Inr actions" and
    names: "map ci_name actions = [''transferAction'']"
    by (cases "indexActions noDetails exportIndex") auto
  have inline: "inlineActions (cleanContent ''sendToken'') = []" by code_simp
  have bound: "\<not> (\<exists>r \<in> set (wordRefs (cleanContent ''sendToken'')). ?imports r = Some ''sendToken'')"
    by (simp add: refs table)
  from alias_resolved_to_original [OF h1 h2 h3 h4 h5 h6 h7] inline bound
  have c: "(\<exists>c \<in> set actions. ci_name c = ''transferAction'') \<and>
        (\<forall>c \<in> set actions. ci_name c \<noteq> ''sendToken'')"
    by auto
  have "\<exists>actions. indexActions noDetails exportIndex = Inr actions \<and>
      map ci_name actions = [''transferAction''] \<and>
      (\<exists>c \<in> set actions. ci_name c = ''transferAction'') \<and>
      (\<forall>c \<in> set actions. ci_name c \<noteq> ''sendToken'')"
    by (rule exI [of _ actions]) (rule conjI [OF h7 conjI [OF names c]])
  then show ?thesis
    by (rule conjI [OF h1 conjI [OF none conjI [OF h4]]])
qed

lemma alias_resolved_examples:
  "map_sum id (map ci_name) (indexActions noDetails aliasIndex) = Inr [''transferAction'']"
  "map_sum id (map ci_name) (indexActions noDetails dotIndex) = Inr [''transferAction'']"
  by code_simp+

text \<open>
  Claim C4 as stated fails on two index files that import \<open>transferAction\<close> as
  \<open>sendToken\<close> and list \<open>sendToken\<close> in an array of actions. In the first, an earlier
  \<open>actions: [...]\<close> is the one extracted, and nothing is recorded for \<open>sendToken\<close>. In
  the second, another action whose original name is \<open>sendToken\<close> comes first in the
  array; the reference \<open>sendToken\<close> is then taken as already found, and the only
  component recorded is named \<open>sendToken\<close>.
\<close>

theorem alias_not_resolved:
  "actionImports twoArraysIndex ''sendToken'' = Some ''transferAction'' \<and>
   sublist ''actions: [sendToken]'' twoArraysIndex \<and>
   map_sum id (map ci_name) (indexActions noDetails twoArraysIndex) = Inr [''helloAction''] \<and>
   actionImports clashIndex ''sendToken'' = Some ''transferAction'' \<and>
   sublist ''actions: [legacySend, sendToken]'' clashIndex \<and>
   map_sum id (map ci_name) (indexActions noDetails clashIndex) = Inr [''sendToken'']"
  by code_simp
end
